theory Spec2Isabelle
  imports Main
begin

section \<open>Strings\<close>

text \<open>
  A Python \<open>str\<close> is a sequence of code points. It is modelled as a \<open>string\<close>; one
  \<open>char\<close> stands for one code point (the code points 0 to 255). Lengths and indices
  count characters, as Python's do.
\<close>

definition LF :: char where "LF = CHR 0x0A"
definition CR :: char where "CR = CHR 0x0D"
definition TAB :: char where "TAB = CHR 0x09"

text \<open>\<open>s[a:b]\<close> for indices that are not negative: Python clamps both ends.\<close>

definition slice :: "string \<Rightarrow> nat \<Rightarrow> nat \<Rightarrow> string" where
  "slice s a b = take (b - a) (drop a s)"

text \<open>
  \<open>str.isspace\<close> on one character; the regular expression class \<open>\s\<close> of a \<open>str\<close>
  pattern tests the same set.
\<close>

definition isspace :: "char \<Rightarrow> bool" where
  "isspace c = (c \<in> set [CHR 0x09, CHR 0x0A, CHR 0x0B, CHR 0x0C, CHR 0x0D,
                          CHR 0x1C, CHR 0x1D, CHR 0x1E, CHR 0x1F, CHR 0x20,
                          CHR 0x85, CHR 0xA0])"

text \<open>\<open>str.strip()\<close>, \<open>str.rstrip(chars)\<close> and \<open>str.endswith\<close>.\<close>

definition lstrip :: "string \<Rightarrow> string" where
  "lstrip s = dropWhile isspace s"

definition rstrip :: "string \<Rightarrow> string" where
  "rstrip s = rev (dropWhile isspace (rev s))"

definition strip :: "string \<Rightarrow> string" where
  "strip s = rstrip (lstrip s)"

definition rstrip_chars :: "string \<Rightarrow> string \<Rightarrow> string" where
  "rstrip_chars cs s = rev (dropWhile (\<lambda>c. c \<in> set cs) (rev s))"

definition endswith :: "string \<Rightarrow> string \<Rightarrow> bool" where
  "endswith s suf = (length suf \<le> length s \<and> drop (length s - length suf) s = suf)"

text \<open>\<open>s.startswith(p, i)\<close> and \<open>s.find(c, start)\<close> for a one-character \<open>c\<close>.\<close>

definition startswith_at :: "string \<Rightarrow> string \<Rightarrow> nat \<Rightarrow> bool" where
  "startswith_at s p i = (i \<le> length s \<and> take (length p) (drop i s) = p)"

fun find_from :: "char \<Rightarrow> string \<Rightarrow> nat \<Rightarrow> nat option" where
  "find_from c [] k = None"
| "find_from c (x # xs) k = (if x = c then Some k else find_from c xs (Suc k))"

definition find :: "string \<Rightarrow> char \<Rightarrow> nat \<Rightarrow> nat option" where
  "find s c start = find_from c (drop start s) start"

text \<open>
  \<open>str.splitlines(keepends=True)\<close>: a line ends after a line boundary, which is kept;
  \<open>\r\n\<close> is one boundary. No line is empty, and the lines joined are the text.
\<close>

definition is_linebreak :: "char \<Rightarrow> bool" where
  "is_linebreak c = (c \<in> set [CHR 0x0A, CHR 0x0B, CHR 0x0C, CHR 0x0D,
                               CHR 0x1C, CHR 0x1D, CHR 0x1E, CHR 0x85])"

fun splitlines_from :: "string \<Rightarrow> string \<Rightarrow> string list" where
  "splitlines_from cur [] = (if cur = [] then [] else [cur])"
| "splitlines_from cur [c] = [cur @ [c]]"
| "splitlines_from cur (c # d # s) =
     (if c = CR \<and> d = LF then (cur @ [c, d]) # splitlines_from [] s
      else if is_linebreak c then (cur @ [c]) # splitlines_from [] (d # s)
      else splitlines_from (cur @ [c]) (d # s))"

definition splitlines :: "string \<Rightarrow> string list" where
  "splitlines s = splitlines_from [] s"

section \<open>Regular expressions\<close>

text \<open>
  The patterns of the source use character classes under a repetition, literals, named
  groups, alternation, an optional group and the anchors \<open>^\<close> and \<open>\Z\<close>. \<open>re.match\<close>
  is a backtracking matcher: it returns the first way to match in the order of its
  choices (a greedy repetition tries the longest run first, a lazy one the shortest; an
  alternation its left branch first; an optional group its presence first). The matcher
  below lists every way to match in that order, so the first one is the match.
\<close>

datatype cls =
    OneOf string          \<comment> \<open>\<open>[...]\<close> or one literal character\<close>
  | NoneOf string         \<comment> \<open>\<open>[^...]\<close>\<close>
  | Dot                   \<comment> \<open>\<open>.\<close>: any character but a newline\<close>
  | DotAll                \<comment> \<open>\<open>.\<close> under \<open>re.DOTALL\<close>\<close>
  | Space                 \<comment> \<open>\<open>\s\<close>\<close>

fun cls_has :: "cls \<Rightarrow> char \<Rightarrow> bool" where
  "cls_has (OneOf cs) c = (c \<in> set cs)"
| "cls_has (NoneOf cs) c = (c \<notin> set cs)"
| "cls_has Dot c = (c \<noteq> LF)"
| "cls_has DotAll c = True"
| "cls_has Space c = isspace c"

datatype regex =
    Rep cls nat "nat option" bool   \<comment> \<open>class, least count, greatest count, greedy\<close>
  | Group string regex
  | Seq regex regex
  | Alt regex regex
  | Opt regex
  | Bos                             \<comment> \<open>\<open>^\<close>\<close>
  | Eos                             \<comment> \<open>\<open>\Z\<close>\<close>

type_synonym captures = "(string \<times> string) list"

text \<open>A matcher state: the position, the text from there on, the groups captured so far.\<close>

type_synonym mstate = "nat \<times> string \<times> captures"

definition rep_counts :: "cls \<Rightarrow> nat \<Rightarrow> nat option \<Rightarrow> bool \<Rightarrow> string \<Rightarrow> nat list" where
  "rep_counts c lo hi greedy s =
     (let run = length (takeWhile (cls_has c) s);
          top = (case hi of None \<Rightarrow> run | Some h \<Rightarrow> min h run);
          ks = [lo ..< Suc top]
      in if greedy then rev ks else ks)"

fun rmatch :: "regex \<Rightarrow> mstate \<Rightarrow> mstate list" where
  "rmatch (Rep c lo hi greedy) (pos, s, caps) =
     map (\<lambda>k. (pos + k, drop k s, caps)) (rep_counts c lo hi greedy s)"
| "rmatch (Group name r) (pos, s, caps) =
     map (\<lambda>(pos', s', caps'). (pos', s', (name, take (pos' - pos) s) # caps'))
         (rmatch r (pos, s, caps))"
| "rmatch (Seq a b) st = concat (map (rmatch b) (rmatch a st))"
| "rmatch (Alt a b) st = rmatch a st @ rmatch b st"
| "rmatch (Opt a) st = rmatch a st @ [st]"
| "rmatch Bos (pos, s, caps) = (if pos = 0 then [(pos, s, caps)] else [])"
| "rmatch Eos (pos, s, caps) = (if s = [] then [(pos, s, caps)] else [])"

text \<open>\<open>re.match(pattern, s)\<close>: the groups of the first match, or None.\<close>

definition re_match :: "regex \<Rightarrow> string \<Rightarrow> captures option" where
  "re_match r s = (case rmatch r (0, s, []) of [] \<Rightarrow> None | (_, _, caps) # _ \<Rightarrow> Some caps)"

text \<open>\<open>m.group(name) or ""\<close>: a group that took no part in the match is None.\<close>

definition group :: "captures \<Rightarrow> string \<Rightarrow> string" where
  "group caps name = (case map_of caps name of None \<Rightarrow> [] | Some v \<Rightarrow> v)"

fun seqs :: "regex list \<Rightarrow> regex" where
  "seqs [] = Rep DotAll 0 (Some 0) True"
| "seqs [r] = r"
| "seqs (r # rs) = Seq r (seqs rs)"

definition star :: "cls \<Rightarrow> regex" where "star c = Rep c 0 None True"
definition lazy_star :: "cls \<Rightarrow> regex" where "lazy_star c = Rep c 0 None False"
definition plus :: "cls \<Rightarrow> regex" where "plus c = Rep c 1 None True"
definition at_least :: "nat \<Rightarrow> cls \<Rightarrow> regex" where "at_least n c = Rep c n None True"
definition opt_char :: "char \<Rightarrow> regex" where "opt_char c = Rep (OneOf [c]) 0 (Some 1) True"
definition one_char :: "char \<Rightarrow> regex" where "one_char c = Rep (OneOf [c]) 1 (Some 1) True"

text \<open>\<open>\r?\n\<close>\<close>

definition eol_re :: regex where
  "eol_re = Seq (opt_char CR) (one_char LF)"

text \<open>
  \<open>_split_trivia\<close>: \<open>re.match(r"(\s*)(.*?)(\s*)\Z", raw, flags=re.DOTALL)\<close>, the groups
  1, 2 and 3; \<open>("", raw, "")\<close> when there is no match.
\<close>

definition trivia_re :: regex where
  "trivia_re = seqs [Group ''1'' (star Space), Group ''2'' (lazy_star DotAll),
                     Group ''3'' (star Space), Eos]"

definition split_trivia :: "string \<Rightarrow> string \<times> string \<times> string" where
  "split_trivia raw =
     (case re_match trivia_re raw of
        None \<Rightarrow> ([], raw, [])
      | Some m \<Rightarrow> (group m ''1'', group m ''2'', group m ''3''))"

definition strip_linebreaks_only :: "string \<Rightarrow> string" where
  "strip_linebreaks_only t = rstrip_chars [CR, LF] t"

section \<open>Nodes\<close>

datatype NodeType =
    Root | Heading1 | Heading2 | Heading3 | Heading4 | Heading5 | Heading6
  | Paragraph | Text | Link | Image | CodeBlock | BlockQuote | List | ListItem | Raw

text \<open>\<open>NodeType.value\<close>\<close>

fun type_value :: "NodeType \<Rightarrow> string" where
  "type_value Root = ''Root''"
| "type_value Heading1 = ''Heading1''"
| "type_value Heading2 = ''Heading2''"
| "type_value Heading3 = ''Heading3''"
| "type_value Heading4 = ''Heading4''"
| "type_value Heading5 = ''Heading5''"
| "type_value Heading6 = ''Heading6''"
| "type_value Paragraph = ''Paragraph''"
| "type_value Text = ''Text''"
| "type_value Link = ''Link''"
| "type_value Image = ''Image''"
| "type_value CodeBlock = ''CodeBlock''"
| "type_value BlockQuote = ''BlockQuote''"
| "type_value List = ''List''"
| "type_value ListItem = ''ListItem''"
| "type_value Raw = ''Raw''"

text \<open>
  What the code raises. \<open>AttributeError\<close> carries the message the source gives it.
  \<open>ReadOnlyProperty\<close> is the \<open>AttributeError\<close> that the interpreter itself raises on
  an assignment to a property declared without a setter; it carries the class and the
  property, and its message is the interpreter's, not the source's.
\<close>

datatype error =
    AttributeError string
  | ReadOnlyProperty string string
  | IndexError
  | KeyError

text \<open>\<open>_HEADING_TYPES[level]\<close>: a dictionary with the keys 1 to 6.\<close>

definition HEADING_TYPES :: "nat \<Rightarrow> error + NodeType" where
  "HEADING_TYPES level =
     (if level = 1 then Inr Heading1 else if level = 2 then Inr Heading2
      else if level = 3 then Inr Heading3 else if level = 4 then Inr Heading4
      else if level = 5 then Inr Heading5 else if level = 6 then Inr Heading6
      else Inl KeyError)"

text \<open>The fields each subclass of \<open>MarkdownNode\<close> adds.\<close>

record TextNode_fields =
  t_raw_original :: string
  t_leading :: string
  t_core :: string
  t_trailing :: string

record LinkNode_fields =
  l_raw_original :: string
  is_image :: bool
  label_leading :: string
  label_core :: string
  label_trailing :: string
  href_leading :: string
  href_core :: string
  href_trailing :: string

record CodeBlockNode_fields =
  opening_line_original :: string
  closing_line_original :: string
  block_suffix_original :: string
  opening_prefix :: string
  fence :: string
  info :: string
  opening_eol :: string
  closing_indent :: string
  closing_fence :: string
  closing_trailing :: string
  closing_eol :: string
  code_body_original :: string
  code_body_current :: string

record HeadingNode_fields =
  Level :: nat
  raw_line_original :: string
  prefix :: string
  title_leading :: string
  title_core :: string
  title_trailing :: string
  line_suffix :: string
  h_block_suffix :: string

record ParagraphNode_fields =
  p_raw_original :: string
  p_block_suffix :: string

record MarkdownDocument_fields =
  leading_trivia :: string
  source_path :: "string option"

datatype fields =
    BaseNode                              \<comment> \<open>a plain \<open>MarkdownNode\<close>\<close>
  | TextFields TextNode_fields
  | LinkFields LinkNode_fields
  | CodeFields CodeBlockNode_fields
  | HeadingFields HeadingNode_fields
  | ParagraphFields ParagraphNode_fields
  | DocumentFields MarkdownDocument_fields

text \<open>
  A node: \<open>Type\<close>, \<open>_dirty_self\<close>, the fields of its class and \<open>_children\<close>. A node
  owns its children, so the document is a tree and a node of it is addressed by the
  child indices on the way from the root (\<open>doc[2][0]\<close> is the path \<open>[2, 0]\<close>);
  \<open>_parent\<close> is the node at the path without its last index.
\<close>

datatype node = Node (Type: NodeType) (dirty_self: bool) (flds: fields) (children: "node list")

type_synonym path = "nat list"

fun IsDirty :: "node \<Rightarrow> bool" where
  "IsDirty (Node ty d f cs) = (if d then True else list_ex IsDirty cs)"

definition MarkDirty :: "node \<Rightarrow> node" where
  "MarkDirty n = Node (Type n) True (flds n) (children n)"

text \<open>\<open>AddChild\<close> and \<open>_AppendChildParsed\<close>, on the node itself.\<close>

definition AppendChildParsed :: "node \<Rightarrow> node \<Rightarrow> node" where
  "AppendChildParsed child self = Node (Type self) (dirty_self self) (flds self) (children self @ [child])"

definition AddChild :: "node \<Rightarrow> node \<Rightarrow> node" where
  "AddChild child self = MarkDirty (AppendChildParsed child self)"

subsection \<open>Serialisation\<close>

fun ToMarkdown :: "node \<Rightarrow> string" where
  "ToMarkdown (Node ty d BaseNode cs) = concat (map ToMarkdown cs)"
| "ToMarkdown (Node ty d (TextFields f) cs) =
     (if \<not> IsDirty (Node ty d (TextFields f) cs) then t_raw_original f
      else t_leading f @ t_core f @ t_trailing f)"
| "ToMarkdown (Node ty d (LinkFields f) cs) =
     (if \<not> IsDirty (Node ty d (LinkFields f) cs) then l_raw_original f
      else let bang = (if is_image f then ''!'' else []);
               label = label_leading f @ label_core f @ label_trailing f;
               href = href_leading f @ href_core f @ href_trailing f
           in bang @ ''['' @ label @ '']('' @ href @ '')'')"
| "ToMarkdown (Node ty d (CodeFields f) cs) =
     (if \<not> IsDirty (Node ty d (CodeFields f) cs)
      then opening_line_original f @ code_body_original f @
           closing_line_original f @ block_suffix_original f
      else let opening = opening_prefix f @ fence f @ info f @ opening_eol f;
               closing = closing_indent f @ closing_fence f @ closing_trailing f @ closing_eol f
           in opening @ code_body_current f @ closing @ block_suffix_original f)"
| "ToMarkdown (Node ty d (HeadingFields f) cs) =
     (let line = (if \<not> d then raw_line_original f
                  else let title = title_leading f @ title_core f @ title_trailing f
                       in prefix f @ title @ line_suffix f)
      in line @ h_block_suffix f @ concat (map ToMarkdown cs))"
| "ToMarkdown (Node ty d (ParagraphFields f) cs) =
     (let content = (if \<not> d \<and> \<not> list_ex IsDirty cs then p_raw_original f
                     else concat (map ToMarkdown cs))
      in content @ p_block_suffix f)"
| "ToMarkdown (Node ty d (DocumentFields f) cs) =
     leading_trivia f @ concat (map ToMarkdown cs)"

definition ToString :: "node \<Rightarrow> string" where
  "ToString n = strip_linebreaks_only (ToMarkdown n)"

definition ToPlainText :: "node \<Rightarrow> string" where
  "ToPlainText n =
     (case flds n of
        TextFields f \<Rightarrow> ToMarkdown n
      | LinkFields f \<Rightarrow> label_leading f @ label_core f @ label_trailing f
      | _ \<Rightarrow> ToString n)"

definition SaveToString :: "node \<Rightarrow> string" where
  "SaveToString n = ToMarkdown n"

subsection \<open>The Text property\<close>

definition get_Text :: "node \<Rightarrow> string" where
  "get_Text n =
     (case flds n of
        BaseNode \<Rightarrow> []
      | TextFields f \<Rightarrow> t_core f
      | LinkFields f \<Rightarrow> label_core f
      | CodeFields f \<Rightarrow> code_body_current f
      | HeadingFields f \<Rightarrow> title_core f
      | ParagraphFields f \<Rightarrow> strip (concat (map ToPlainText (children n)))
      | DocumentFields f \<Rightarrow> [])"

text \<open>
  The setter. The base class and the document raise the source's \<open>AttributeError\<close>;
  \<open>ParagraphNode\<close> redeclares \<open>Text\<close> with a getter only, so the assignment is refused
  by the interpreter.
\<close>

definition set_Text :: "string \<Rightarrow> node \<Rightarrow> error + node" where
  "set_Text v n =
     (case flds n of
        BaseNode \<Rightarrow> Inl (AttributeError (type_value (Type n) @ '' does not support Text assignment''))
      | TextFields f \<Rightarrow>
          Inr (MarkDirty (Node (Type n) (dirty_self n) (TextFields (f\<lparr>t_core := strip v\<rparr>)) (children n)))
      | LinkFields f \<Rightarrow>
          Inr (MarkDirty (Node (Type n) (dirty_self n) (LinkFields (f\<lparr>label_core := strip v\<rparr>)) (children n)))
      | CodeFields f \<Rightarrow>
          Inr (MarkDirty (Node (Type n) (dirty_self n) (CodeFields (f\<lparr>code_body_current := v\<rparr>)) (children n)))
      | HeadingFields f \<Rightarrow>
          Inr (MarkDirty (Node (Type n) (dirty_self n) (HeadingFields (f\<lparr>title_core := strip v\<rparr>)) (children n)))
      | ParagraphFields f \<Rightarrow> Inl (ReadOnlyProperty ''ParagraphNode'' ''Text'')
      | DocumentFields f \<Rightarrow>
          Inl (AttributeError (type_value (Type n) @ '' does not support Text assignment'')))"

text \<open>\<open>LinkNode.Href\<close> and \<open>CodeBlockNode.InfoString\<close>.\<close>

definition get_Href :: "LinkNode_fields \<Rightarrow> string" where
  "get_Href f = href_core f"

definition get_InfoString :: "CodeBlockNode_fields \<Rightarrow> string" where
  "get_InfoString f = strip (info f)"

text \<open>
  On a node of another class an assignment to \<open>Href\<close> or \<open>InfoString\<close> only creates an
  attribute of that name, which nothing reads: the node is as before.
\<close>

definition set_Href :: "string \<Rightarrow> node \<Rightarrow> node" where
  "set_Href v n =
     (case flds n of
        LinkFields f \<Rightarrow>
          MarkDirty (Node (Type n) (dirty_self n) (LinkFields (f\<lparr>href_core := strip v\<rparr>)) (children n))
      | _ \<Rightarrow> n)"

definition set_InfoString :: "string \<Rightarrow> node \<Rightarrow> node" where
  "set_InfoString v n =
     (case flds n of
        CodeFields f \<Rightarrow>
          MarkDirty (Node (Type n) (dirty_self n)
            (CodeFields (f\<lparr>info := (if strip v \<noteq> [] then '' '' @ strip v else [])\<rparr>)) (children n))
      | _ \<Rightarrow> n)"

subsection \<open>Constructors\<close>

definition MarkdownNode :: "NodeType \<Rightarrow> node" where
  "MarkdownNode node_type = Node node_type False BaseNode []"

definition TextNode :: "string \<Rightarrow> node" where
  "TextNode raw =
     (case split_trivia raw of
        (leading, core, trailing) \<Rightarrow>
          Node Text False
            (TextFields \<lparr>t_raw_original = raw, t_leading = leading, t_core = core,
                         t_trailing = trailing\<rparr>) [])"

definition LinkNode :: "string \<Rightarrow> string \<Rightarrow> string \<Rightarrow> bool \<Rightarrow> node" where
  "LinkNode raw label href is_img =
     (case split_trivia label of
        (ll, lc, lt) \<Rightarrow>
          (case split_trivia href of
             (hl, hc, ht) \<Rightarrow>
               Node (if is_img then Image else Link) False
                 (LinkFields \<lparr>l_raw_original = raw, is_image = is_img,
                    label_leading = ll, label_core = lc, label_trailing = lt,
                    href_leading = hl, href_core = hc, href_trailing = ht\<rparr>) []))"

definition sp_tab :: cls where "sp_tab = OneOf [CHR '' '', TAB]"
definition backtick :: char where "backtick = CHR 0x60"
definition tilde :: char where "tilde = CHR 0x7E"

text \<open>
  \<open>_parse_opening\<close>:
  \<open>^(?P<indent>[ \t]*)(?P<fence>`{3,}|~{3,})(?P<info>[^\r\n]*?)(?P<eol>\r?\n)?\Z\<close>.
  \<open>_parse_closing\<close> has the same pattern, with the third group named \<open>trailing\<close>.
\<close>

definition parse_opening_re :: "string \<Rightarrow> regex" where
  "parse_opening_re third =
     seqs [Bos, Group ''indent'' (star sp_tab),
           Group ''fence'' (Alt (at_least 3 (OneOf [backtick])) (at_least 3 (OneOf [tilde]))),
           Group third (lazy_star (NoneOf [CR, LF])),
           Opt (Group ''eol'' eol_re), Eos]"

definition parse_opening :: "string \<Rightarrow> string \<times> string \<times> string \<times> string" where
  "parse_opening line =
     (case re_match (parse_opening_re ''info'') line of
        None \<Rightarrow> ([], replicate 3 backtick, [], if endswith line [LF] then [LF] else [])
      | Some m \<Rightarrow> (group m ''indent'', group m ''fence'', group m ''info'', group m ''eol''))"

definition parse_closing :: "string \<Rightarrow> string \<times> string \<times> string \<times> string" where
  "parse_closing line =
     (case re_match (parse_opening_re ''trailing'') line of
        None \<Rightarrow> ([], replicate 3 backtick, [], if endswith line [LF] then [LF] else [])
      | Some m \<Rightarrow> (group m ''indent'', group m ''fence'', group m ''trailing'', group m ''eol''))"

definition CodeBlockNode :: "string \<Rightarrow> string \<Rightarrow> string \<Rightarrow> string \<Rightarrow> node" where
  "CodeBlockNode opening_line code_body closing_line block_suffix =
     (case parse_opening opening_line of
        (op_prefix, op_fence, op_info, op_eol) \<Rightarrow>
          (case parse_closing closing_line of
             (cl_indent, cl_fence, cl_trailing, cl_eol) \<Rightarrow>
               Node CodeBlock False
                 (CodeFields \<lparr>opening_line_original = opening_line,
                    closing_line_original = closing_line,
                    block_suffix_original = block_suffix,
                    opening_prefix = op_prefix, fence = op_fence, info = op_info,
                    opening_eol = op_eol,
                    closing_indent = cl_indent, closing_fence = cl_fence,
                    closing_trailing = cl_trailing, closing_eol = cl_eol,
                    code_body_original = code_body, code_body_current = code_body\<rparr>) []))"

definition HeadingNode ::
  "nat \<Rightarrow> string \<Rightarrow> string \<Rightarrow> string \<Rightarrow> string \<Rightarrow> string \<Rightarrow> error + node" where
  "HeadingNode level raw_line pfx title_raw line_sfx block_suffix =
     (case HEADING_TYPES level of
        Inl e \<Rightarrow> Inl e
      | Inr ty \<Rightarrow>
          (case split_trivia title_raw of
             (tlead, tcore, ttrail) \<Rightarrow>
               Inr (Node ty False
                 (HeadingFields \<lparr>Level = level, raw_line_original = raw_line, prefix = pfx,
                    title_leading = tlead, title_core = tcore, title_trailing = ttrail,
                    line_suffix = line_sfx, h_block_suffix = block_suffix\<rparr>) [])))"

section \<open>The inline scanner\<close>

text \<open>
  \<open>_try_parse_link\<close>. \<open>raw[pos]\<close> raises \<open>IndexError\<close> when \<open>pos\<close> is not an index of
  \<open>raw\<close>; \<open>raw[close_bracket + 1]\<close> is read under its bound check.
\<close>

definition try_parse_link ::
  "string \<Rightarrow> nat \<Rightarrow> bool \<Rightarrow> error + (nat \<times> nat \<times> string \<times> string) option" where
  "try_parse_link raw pos is_img =
     (if is_img \<and> \<not> startswith_at raw ''!['' pos then Inr None
      else if \<not> is_img \<and> \<not> pos < length raw then Inl IndexError
      else if \<not> is_img \<and> raw ! pos \<noteq> CHR ''['' then Inr None
      else
        let label_start = (if is_img then pos + 2 else pos + 1) in
        (case find raw (CHR '']'') label_start of
           None \<Rightarrow> Inr None
         | Some close_bracket \<Rightarrow>
             if close_bracket + 1 \<ge> length raw \<or> raw ! (close_bracket + 1) \<noteq> CHR ''(''
             then Inr None
             else
               let href_start = close_bracket + 2 in
               (case find raw (CHR '')'') href_start of
                  None \<Rightarrow> Inr None
                | Some close_paren \<Rightarrow>
                    Inr (Some (pos, close_paren + 1,
                               slice raw label_start close_bracket,
                               slice raw href_start close_paren)))))"

text \<open>The local function \<open>flush_text\<close>: the new \<open>nodes\<close> and the new \<open>buffer_start\<close>.\<close>

definition flush_text :: "string \<Rightarrow> node list \<Rightarrow> nat \<Rightarrow> nat \<Rightarrow> node list \<times> nat" where
  "flush_text raw nodes buffer_start until =
     (if until > buffer_start
      then (nodes @ [TextNode (slice raw buffer_start until)], until)
      else (nodes, until))"

text \<open>One attempt of the loop body: \<open>if <guard>: parsed = _try_parse_link(...)\<close>.\<close>

definition attempt ::
  "bool \<Rightarrow> string \<Rightarrow> nat \<Rightarrow> bool \<Rightarrow> error + (nat \<times> nat \<times> string \<times> string) option" where
  "attempt guard raw i is_img = (if guard then try_parse_link raw i is_img else Inr None)"

lemma find_from_bounds: "find_from c xs k = Some j \<Longrightarrow> k \<le> j \<and> j < k + length xs"
  by (induction xs arbitrary: k) (fastforce split: if_splits)+

lemma find_bounds: "find s c start = Some j \<Longrightarrow> start \<le> j \<and> j < length s"
  unfolding find_def using find_from_bounds [of c "drop start s" start j] by auto

lemma try_parse_link_bounds:
  "try_parse_link raw pos b = Inr (Some (start, e, label, href)) \<Longrightarrow>
   start = pos \<and> pos + 3 < e \<and> e \<le> length raw"
  unfolding try_parse_link_def Let_def
  by (auto split: if_splits option.splits dest!: find_bounds)

lemma attempt_bounds:
  "attempt g raw pos b = Inr (Some (start, e, label, href)) \<Longrightarrow>
   start = pos \<and> pos + 3 < e \<and> e \<le> length raw"
  unfolding attempt_def by (auto split: if_splits dest: try_parse_link_bounds)

function parse_inlines_loop ::
  "string \<Rightarrow> nat \<Rightarrow> nat \<Rightarrow> node list \<Rightarrow> error + node list" where
  "parse_inlines_loop raw i buffer_start nodes =
     (if i < length raw then
        (case attempt (startswith_at raw ''!['' i) raw i True of
           Inl err \<Rightarrow> Inl err
         | Inr (Some (start, e, label, href)) \<Rightarrow>
             (case flush_text raw nodes buffer_start start of
                (nodes1, _) \<Rightarrow>
                  parse_inlines_loop raw e e
                    (nodes1 @ [LinkNode (slice raw start e) label href True]))
         | Inr None \<Rightarrow>
             (case attempt (raw ! i = CHR ''['') raw i False of
                Inl err \<Rightarrow> Inl err
              | Inr (Some (start, e, label, href)) \<Rightarrow>
                  (case flush_text raw nodes buffer_start start of
                     (nodes1, _) \<Rightarrow>
                       parse_inlines_loop raw e e
                         (nodes1 @ [LinkNode (slice raw start e) label href False]))
              | Inr None \<Rightarrow> parse_inlines_loop raw (i + 1) buffer_start nodes))
      else Inr (fst (flush_text raw nodes buffer_start (length raw))))"
  by pat_completeness auto
termination
  by (relation "measure (\<lambda>(raw, i, b, ns). length raw - i)")
     (auto dest!: attempt_bounds)

definition parse_inlines :: "string \<Rightarrow> error + node list" where
  "parse_inlines raw = parse_inlines_loop raw 0 0 []"

definition ParagraphNode :: "string \<Rightarrow> string \<Rightarrow> error + node" where
  "ParagraphNode raw_content block_suffix =
     (case parse_inlines raw_content of
        Inl e \<Rightarrow> Inl e
      | Inr cs \<Rightarrow>
          Inr (Node Paragraph False
            (ParagraphFields \<lparr>p_raw_original = raw_content, p_block_suffix = block_suffix\<rparr>) cs))"

section \<open>The block parser\<close>

text \<open>
  The patterns of \<open>Parse\<close>:
  \<open>blank_line_re = ^[ \t]*\r?\n\Z\<close>,
  \<open>heading_re = ^(?P<indent>[ \t]*)(?P<hashes>#{1,6})(?P<space>[ \t]+)(?P<title>.*?)(?P<trailing>[ \t]*)(?P<eol>\r?\n)?\Z\<close>,
  \<open>fence_open_re = ^(?P<indent>[ \t]*)(?P<fence>`{3,}|~{3,})(?P<info>[^\r\n]*)(?P<eol>\r?\n)?\Z\<close>
  and, for a closing line, \<open>^[ \t]*c{n,}[ \t]*[^\r\n]*\r?\n?\Z\<close> with the fence character
  \<open>c\<close> and the fence length \<open>n\<close> of the opening line.
\<close>

definition blank_line_re :: regex where
  "blank_line_re = seqs [Bos, star sp_tab, opt_char CR, one_char LF, Eos]"

definition heading_re :: regex where
  "heading_re =
     seqs [Bos, Group ''indent'' (star sp_tab),
           Group ''hashes'' (Rep (OneOf ''#'') 1 (Some 6) True),
           Group ''space'' (plus sp_tab),
           Group ''title'' (lazy_star Dot),
           Group ''trailing'' (star sp_tab),
           Opt (Group ''eol'' eol_re), Eos]"

definition fence_open_re :: regex where
  "fence_open_re =
     seqs [Bos, Group ''indent'' (star sp_tab),
           Group ''fence'' (Alt (at_least 3 (OneOf [backtick])) (at_least 3 (OneOf [tilde]))),
           Group ''info'' (star (NoneOf [CR, LF])),
           Opt (Group ''eol'' eol_re), Eos]"

definition fence_close_re :: "char \<Rightarrow> nat \<Rightarrow> regex" where
  "fence_close_re fence_char fence_len =
     seqs [Bos, star sp_tab, at_least fence_len (OneOf [fence_char]), star sp_tab,
           star (NoneOf [CR, LF]), opt_char CR, opt_char LF, Eos]"

definition is_blank :: "string \<Rightarrow> bool" where
  "is_blank line = (re_match blank_line_re line \<noteq> None)"

definition heading_match :: "string \<Rightarrow> captures option" where
  "heading_match line = re_match heading_re line"

definition fence_open_match :: "string \<Rightarrow> captures option" where
  "fence_open_match line = re_match fence_open_re line"

definition is_close :: "char \<Rightarrow> nat \<Rightarrow> string \<Rightarrow> bool" where
  "is_close fence_char fence_len l2 = (re_match (fence_close_re fence_char fence_len) l2 \<noteq> None)"

text \<open>
  \<open>while i < len(lines) and is_blank(lines[i]): acc += lines[i]; i += 1\<close>, the loop
  that gathers the leading trivia and every block suffix.
\<close>

function blank_run :: "string list \<Rightarrow> nat \<Rightarrow> string \<Rightarrow> string \<times> nat" where
  "blank_run lines i acc =
     (if i < length lines \<and> is_blank (lines ! i)
      then blank_run lines (i + 1) (acc @ lines ! i)
      else (acc, i))"
  by pat_completeness auto
termination
  by (relation "measure (\<lambda>(lines, i, acc). length lines - i)") auto

text \<open>
  The search for the closing fence: \<open>body_lines\<close>, \<open>closing_line\<close> (empty when the
  input ends first) and \<open>i\<close> when the loop is left.
\<close>

function scan_fence ::
  "string list \<Rightarrow> char \<Rightarrow> nat \<Rightarrow> nat \<Rightarrow> string list \<Rightarrow> string list \<times> string \<times> nat" where
  "scan_fence lines fence_char fence_len i body_lines =
     (if i < length lines then
        (let l2 = lines ! i in
         if is_close fence_char fence_len l2 then (body_lines, l2, i + 1)
         else scan_fence lines fence_char fence_len (i + 1) (body_lines @ [l2]))
      else (body_lines, [], i))"
  by pat_completeness auto
termination
  by (relation "measure (\<lambda>(lines, c, n, i, body). length lines - i)") auto

text \<open>The lines a paragraph absorbs after its first one.\<close>

function para_loop :: "string list \<Rightarrow> nat \<Rightarrow> string list \<Rightarrow> string list \<times> nat" where
  "para_loop lines i para_lines =
     (if i < length lines then
        (if is_blank (lines ! i) then (para_lines, i)
         else if heading_match (lines ! i) \<noteq> None then (para_lines, i)
         else if fence_open_match (lines ! i) \<noteq> None then (para_lines, i)
         else para_loop lines (i + 1) (para_lines @ [lines ! i]))
      else (para_lines, i))"
  by pat_completeness auto
termination
  by (relation "measure (\<lambda>(lines, i, ps). length lines - i)") auto

text \<open>
  \<open>while stack_levels and stack_levels[-1] >= level: stack.pop(); stack_levels.pop()\<close>.
  The top of a Python list used as a stack is its last element.
\<close>

function pop_open :: "path list \<Rightarrow> nat list \<Rightarrow> nat \<Rightarrow> error + (path list \<times> nat list)" where
  "pop_open stack stack_levels level =
     (if stack_levels \<noteq> [] \<and> last stack_levels \<ge> level
      then (if stack = [] then Inl IndexError
            else pop_open (butlast stack) (butlast stack_levels) level)
      else Inr (stack, stack_levels))"
  by pat_completeness auto
termination
  by (relation "measure (\<lambda>(stack, levels, level). length levels)") auto

text \<open>
  The nodes of the tree under construction are reached through references held in
  \<open>stack\<close>. A reference is modelled as the path of the node from the document, and the
  document's tree is the store. Following a path that is not in the tree is an
  \<open>IndexError\<close>, as \<open>node[k]\<close> is.
\<close>

fun node_at :: "path \<Rightarrow> node \<Rightarrow> error + node" where
  "node_at [] n = Inr n"
| "node_at (k # p) n =
     (if k < length (children n) then node_at p (children n ! k) else Inl IndexError)"

fun modify_at :: "path \<Rightarrow> (node \<Rightarrow> error + node) \<Rightarrow> node \<Rightarrow> error + node" where
  "modify_at [] f n = f n"
| "modify_at (k # p) f n =
     (if k < length (children n)
      then (case modify_at p f (children n ! k) of
              Inl e \<Rightarrow> Inl e
            | Inr c \<Rightarrow> Inr (Node (Type n) (dirty_self n) (flds n) ((children n)[k := c])))
      else Inl IndexError)"

definition append_parsed_at :: "path \<Rightarrow> node \<Rightarrow> node \<Rightarrow> error + node" where
  "append_parsed_at p child t = modify_at p (\<lambda>n. Inr (AppendChildParsed child n)) t"

text \<open>The variables of \<open>Parse\<close> that its main loop changes; \<open>tree\<close> is \<open>self\<close>.\<close>

record parse_state =
  tree :: node
  stack :: "path list"
  stack_levels :: "nat list"
  idx :: nat

text \<open>
  How a part of the loop body ends: with \<open>continue\<close> (or an exception), or by falling
  through to the next part with the current \<open>i\<close> and \<open>line\<close>.

  The parts are only run under the loop condition \<open>i < len(lines)\<close>, so \<open>lines[i]\<close> is
  in range. The rewind \<open>i = i - len(body_lines) - 1\<close> is written with the subtraction of
  \<open>nat\<close>: the search has advanced \<open>i\<close> once for the opening line and once for every
  body line (\<open>scan_fence_idx\<close> below), so nothing is cut off and the result is the index
  of the opening line (\<open>fence_part_inv\<close>). In \<open>heading_part\<close> the reference pushed for
  the new heading is the path of the parent followed by the index the new child gets.
\<close>

datatype flow = Continue "error + parse_state" | FallThrough nat string

definition fence_part :: "string list \<Rightarrow> parse_state \<Rightarrow> flow" where
  "fence_part lines st =
     (let i = idx st; line = lines ! i in
      case fence_open_match line of
        None \<Rightarrow> FallThrough i line
      | Some fm \<Rightarrow>
          (case group fm ''fence'' of
             [] \<Rightarrow> Continue (Inl IndexError)
           | fence_char # _ \<Rightarrow>
               (let fence_len = length (group fm ''fence'') in
                case scan_fence lines fence_char fence_len (i + 1) [] of
                  (body_lines, closing_line, i2) \<Rightarrow>
                    if closing_line \<noteq> [] then
                      (case blank_run lines i2 [] of
                         (block_suffix, i3) \<Rightarrow>
                           Continue
                             (if stack st = [] then Inl IndexError
                              else case append_parsed_at (last (stack st))
                                          (CodeBlockNode line (concat body_lines)
                                             closing_line block_suffix) (tree st) of
                                     Inl e \<Rightarrow> Inl e
                                   | Inr t \<Rightarrow> Inr (st\<lparr>tree := t, idx := i3\<rparr>)))
                    else FallThrough (i2 - length body_lines - 1)
                                     (lines ! (i2 - length body_lines - 1)))))"

definition heading_part ::
  "string list \<Rightarrow> parse_state \<Rightarrow> nat \<Rightarrow> string \<Rightarrow> (error + parse_state) option" where
  "heading_part lines st i line =
     (case heading_match line of
        None \<Rightarrow> None
      | Some hm \<Rightarrow>
          Some
            (let level = length (group hm ''hashes'');
                 pfx = group hm ''indent'' @ group hm ''hashes'' @ group hm ''space'';
                 title_raw = group hm ''title'';
                 line_sfx = group hm ''trailing'' @ group hm ''eol''
             in case blank_run lines (i + 1) [] of
                  (block_suffix, i2) \<Rightarrow>
                    (case pop_open (stack st) (stack_levels st) level of
                       Inl e \<Rightarrow> Inl e
                     | Inr (stk, lvls) \<Rightarrow>
                         if stk = [] then Inl IndexError
                         else
                           (let parent = last stk in
                            case HeadingNode level line pfx title_raw line_sfx block_suffix of
                              Inl e \<Rightarrow> Inl e
                            | Inr heading_node \<Rightarrow>
                                (case node_at parent (tree st) of
                                   Inl e \<Rightarrow> Inl e
                                 | Inr pn \<Rightarrow>
                                     (case append_parsed_at parent heading_node (tree st) of
                                        Inl e \<Rightarrow> Inl e
                                      | Inr t \<Rightarrow>
                                          Inr \<lparr>tree = t,
                                               stack = stk @ [parent @ [length (children pn)]],
                                               stack_levels = lvls @ [level],
                                               idx = i2\<rparr>))))))"

definition paragraph_part :: "string list \<Rightarrow> parse_state \<Rightarrow> nat \<Rightarrow> string \<Rightarrow> error + parse_state" where
  "paragraph_part lines st i line =
     (case para_loop lines (i + 1) [line] of
        (para_lines, i2) \<Rightarrow>
          (case blank_run lines i2 [] of
             (block_suffix, i3) \<Rightarrow>
               if stack st = [] then Inl IndexError
               else
                 (case ParagraphNode (concat para_lines) block_suffix of
                    Inl e \<Rightarrow> Inl e
                  | Inr para \<Rightarrow>
                      (case append_parsed_at (last (stack st)) para (tree st) of
                         Inl e \<Rightarrow> Inl e
                       | Inr t \<Rightarrow> Inr (st\<lparr>tree := t, idx := i3\<rparr>)))))"

text \<open>One turn of \<open>while i < len(lines)\<close>.\<close>

definition parse_block :: "string list \<Rightarrow> parse_state \<Rightarrow> error + parse_state" where
  "parse_block lines st =
     (case fence_part lines st of
        Continue r \<Rightarrow> r
      | FallThrough i line \<Rightarrow>
          (case heading_part lines st i line of
             Some r \<Rightarrow> r
           | None \<Rightarrow> paragraph_part lines st i line))"

declare blank_run.simps [simp del] scan_fence.simps [simp del] para_loop.simps [simp del]
  pop_open.simps [simp del] parse_inlines_loop.simps [simp del]

lemma blank_run_idx: "blank_run lines i acc = (a, j) \<Longrightarrow> i \<le> j"
proof (induction lines i acc rule: blank_run.induct)
  case (1 lines i acc)
  show ?case
  proof (cases "i < length lines \<and> is_blank (lines ! i)")
    case True
    with "1.prems" have "blank_run lines (i + 1) (acc @ lines ! i) = (a, j)"
      by (subst (asm) blank_run.simps) simp
    from "1.IH" [OF True this] show ?thesis by simp
  next
    case False
    with "1.prems" show ?thesis by (subst (asm) blank_run.simps) auto
  qed
qed

lemma scan_fence_idx:
  "scan_fence lines c n i body = (b, cl, j) \<Longrightarrow>
   length body \<le> length b \<and> i + length b \<le> j + length body"
proof (induction lines c n i body rule: scan_fence.induct)
  case (1 lines c n i body)
  from "1.prems" show ?case
    by (subst (asm) scan_fence.simps) (auto simp: Let_def split: if_splits dest: "1.IH")
qed

lemma para_loop_idx: "para_loop lines i ps = (p, j) \<Longrightarrow> i \<le> j"
proof (induction lines i ps rule: para_loop.induct)
  case (1 lines i ps)
  from "1.prems" show ?case
    by (subst (asm) para_loop.simps) (auto split: if_splits dest: "1.IH")
qed

lemma fence_part_idx:
  "fence_part lines st = Continue (Inr st') \<Longrightarrow> idx st < idx st'"
  "fence_part lines st = FallThrough i line \<Longrightarrow> idx st \<le> i"
  unfolding fence_part_def Let_def
  by (auto split: option.splits list.splits prod.splits if_splits sum.splits
           dest!: scan_fence_idx blank_run_idx)

lemma heading_part_idx:
  "heading_part lines st i line = Some (Inr st') \<Longrightarrow> i < idx st'"
  unfolding heading_part_def Let_def
  by (auto split: option.splits prod.splits if_splits sum.splits dest!: blank_run_idx)

lemma paragraph_part_idx:
  "paragraph_part lines st i line = Inr st' \<Longrightarrow> i < idx st'"
  unfolding paragraph_part_def
  by (auto split: prod.splits if_splits sum.splits dest!: blank_run_idx para_loop_idx)

lemma parse_block_idx: "parse_block lines st = Inr st' \<Longrightarrow> idx st < idx st'"
  unfolding parse_block_def
  by (auto split: flow.splits option.splits
           dest!: fence_part_idx heading_part_idx paragraph_part_idx)

function parse_loop :: "string list \<Rightarrow> parse_state \<Rightarrow> error + parse_state" where
  "parse_loop lines st =
     (if idx st < length lines
      then (case parse_block lines st of
              Inl e \<Rightarrow> Inl e
            | Inr st' \<Rightarrow> parse_loop lines st')
      else Inr st)"
  by pat_completeness auto
termination
  by (relation "measure (\<lambda>(lines, st). length lines - idx st)")
     (auto dest!: parse_block_idx)

declare parse_loop.simps [simp del]

text \<open>
  \<open>MarkdownDocument.Parse\<close>, on the document \<open>self\<close>. \<open>Parse_start\<close> is the state
  in which the main loop is entered: the children cleared, the leading blank lines
  gathered as leading trivia, the document alone on the stack. A node of another class
  has no method \<open>Parse\<close>.
\<close>

definition Parse_start :: "string list \<Rightarrow> node \<Rightarrow> MarkdownDocument_fields \<Rightarrow> parse_state" where
  "Parse_start lines self f =
     (case blank_run lines 0 [] of
        (lead, i) \<Rightarrow>
          \<lparr>tree = Node (Type self) (dirty_self self)
                    (DocumentFields (f\<lparr>leading_trivia := lead\<rparr>)) [],
           stack = [[]], stack_levels = [0], idx = i\<rparr>)"

definition Parse :: "string \<Rightarrow> node \<Rightarrow> error + node" where
  "Parse markdown self =
     (case flds self of
        DocumentFields f \<Rightarrow>
          (let lines = splitlines markdown in
           case parse_loop lines (Parse_start lines self f) of
             Inl e \<Rightarrow> Inl e
           | Inr st \<Rightarrow> Inr (tree st))
      | _ \<Rightarrow> Inl (AttributeError ''object has no attribute Parse''))"

text \<open>\<open>MarkdownDocument(markdown, source_path=...)\<close> and \<open>FromString\<close>.\<close>

definition MarkdownDocument :: "string \<Rightarrow> string option \<Rightarrow> error + node" where
  "MarkdownDocument markdown src_path =
     (let self = Node Root False
                   (DocumentFields \<lparr>leading_trivia = [], source_path = src_path\<rparr>) []
      in if markdown \<noteq> [] then Parse markdown self else Inr self)"

definition FromString :: "string \<Rightarrow> error + node" where
  "FromString markdown = MarkdownDocument markdown None"

section \<open>What a match says about the text\<close>

text \<open>
  \<open>den r p rest cs\<close>: the pattern \<open>r\<close> can consume \<open>p\<close> in front of \<open>rest\<close> and capture
  the groups \<open>cs\<close> (the latest first). Every way the matcher finds is one of these.
\<close>

fun den :: "regex \<Rightarrow> string \<Rightarrow> string \<Rightarrow> captures \<Rightarrow> bool" where
  "den (Rep c lo hi g) p rest cs =
     (cs = [] \<and> lo \<le> length p \<and> (case hi of None \<Rightarrow> True | Some h \<Rightarrow> length p \<le> h) \<and>
      list_all (cls_has c) p)"
| "den (Group name r) p rest cs = (\<exists>cs'. cs = (name, p) # cs' \<and> den r p rest cs')"
| "den (Seq a b) p rest cs =
     (\<exists>p1 p2 c1 c2. p = p1 @ p2 \<and> cs = c2 @ c1 \<and> den a p1 (p2 @ rest) c1 \<and> den b p2 rest c2)"
| "den (Alt a b) p rest cs = (den a p rest cs \<or> den b p rest cs)"
| "den (Opt a) p rest cs = (den a p rest cs \<or> (p = [] \<and> cs = []))"
| "den Bos p rest cs = (p = [] \<and> cs = [])"
| "den Eos p rest cs = (p = [] \<and> cs = [] \<and> rest = [])"

lemma take_run_all: "k \<le> length (takeWhile P s) \<Longrightarrow> list_all P (take k s)"
proof (induction s arbitrary: k)
  case Nil
  then show ?case by simp
next
  case (Cons x xs)
  then show ?case by (cases k) (auto split: if_splits)
qed

lemma rep_counts_bounds:
  "k \<in> set (rep_counts c lo hi g s) \<Longrightarrow>
   lo \<le> k \<and> k \<le> length (takeWhile (cls_has c) s) \<and> (case hi of None \<Rightarrow> True | Some h \<Rightarrow> k \<le> h)"
  unfolding rep_counts_def Let_def by (auto split: option.splits if_splits)

lemma takeWhile_le: "length (takeWhile P s) \<le> length s"
  by (induction s) auto

lemma rmatch_sound:
  "(pos', s', caps') \<in> set (rmatch r (pos, s, caps)) \<Longrightarrow>
   \<exists>p cs. s = p @ s' \<and> pos' = pos + length p \<and> caps' = cs @ caps \<and> den r p s' cs"
proof (induction r arbitrary: pos s caps pos' s' caps')
  case (Rep c lo hi g)
  then obtain k where k: "k \<in> set (rep_counts c lo hi g s)" "pos' = pos + k" "s' = drop k s" "caps' = caps"
    by auto
  from rep_counts_bounds [OF k(1)] have b: "lo \<le> k" "k \<le> length (takeWhile (cls_has c) s)"
    "(case hi of None \<Rightarrow> True | Some h \<Rightarrow> k \<le> h)" by auto
  with takeWhile_le [of "cls_has c" s] have kl: "k \<le> length s" by (meson le_trans)
  have "s = take k s @ s'" using k by simp
  moreover have "den (Rep c lo hi g) (take k s) s' []"
    using b kl take_run_all [OF b(2)] by (auto split: option.splits simp: min_absorb2)
  ultimately show ?case using k kl by (intro exI [of _ "take k s"] exI [of _ "[]"]) (simp add: min_absorb2)
next
  case (Group name r)
  then obtain c0 where m: "(pos', s', c0) \<in> set (rmatch r (pos, s, caps))"
    and c: "caps' = (name, take (pos' - pos) s) # c0"
    by auto
  from Group.IH [OF m] obtain p cs where "s = p @ s'" "pos' = pos + length p" "c0 = cs @ caps" "den r p s' cs"
    by blast
  then show ?case using c by (intro exI [of _ p] exI [of _ "(name, p) # cs"]) simp
next
  case (Seq a b)
  then obtain st where st: "st \<in> set (rmatch a (pos, s, caps))" and m: "(pos', s', caps') \<in> set (rmatch b st)"
    by auto
  obtain p1 s1 c1 where [simp]: "st = (p1, s1, c1)" by (cases st)
  from Seq.IH(1) [OF st [simplified]] obtain pa ca
    where a: "s = pa @ s1" "p1 = pos + length pa" "c1 = ca @ caps" "den a pa s1 ca"
    by blast
  from Seq.IH(2) [OF m [simplified]] obtain pb cb
    where b: "s1 = pb @ s'" "pos' = p1 + length pb" "caps' = cb @ c1" "den b pb s' cb"
    by blast
  show ?case using a b by (intro exI [of _ "pa @ pb"] exI [of _ "cb @ ca"]) auto
next
  case (Alt a b)
  then show ?case by (auto dest!: Alt.IH)
next
  case (Opt a)
  then show ?case by (auto dest!: Opt.IH)
next
  case Bos
  then show ?case by (auto split: if_splits)
next
  case Eos
  then show ?case by (auto split: if_splits)
qed

lemma re_match_sound:
  "re_match r s = Some caps \<Longrightarrow> \<exists>p s'. s = p @ s' \<and> den r p s' caps"
proof -
  assume "re_match r s = Some caps"
  then obtain pos' s' rest where "rmatch r (0, s, []) = (pos', s', caps) # rest"
    unfolding re_match_def by (auto split: list.splits)
  then have "(pos', s', caps) \<in> set (rmatch r (0, s, []))" by simp
  from rmatch_sound [OF this] show ?thesis by auto
qed

lemma split_trivia_join: "split_trivia raw = (l, c, t) \<Longrightarrow> l @ c @ t = raw"
  unfolding split_trivia_def trivia_re_def star_def lazy_star_def
  by (auto split: option.splits dest!: re_match_sound simp: group_def)

section \<open>Lines and the loops over them\<close>

lemma splitlines_from_concat: "concat (splitlines_from cur s) = cur @ s"
  by (induction cur s rule: splitlines_from.induct) auto

lemma splitlines_concat: "concat (splitlines s) = s"
  by (simp add: splitlines_def splitlines_from_concat)

lemma drop_step: "i < length (lines :: string list) \<Longrightarrow> concat (drop i lines) = lines ! i @ concat (drop (Suc i) lines)"
  by (simp flip: Cons_nth_drop_Suc)

lemma blank_run_concat:
  "blank_run lines i acc = (a, j) \<Longrightarrow> i \<le> length lines \<Longrightarrow>
   a @ concat (drop j lines) = acc @ concat (drop i lines) \<and> j \<le> length lines"
proof (induction lines i acc rule: blank_run.induct)
  case (1 lines i acc)
  show ?case
  proof (cases "i < length lines \<and> is_blank (lines ! i)")
    case True
    with "1.prems" have "blank_run lines (i + 1) (acc @ lines ! i) = (a, j)"
      by (subst (asm) blank_run.simps) simp
    from "1.IH" [OF True this] True show ?thesis by (simp add: drop_step)
  next
    case False
    with "1.prems" show ?thesis by (subst (asm) blank_run.simps) auto
  qed
qed

lemma scan_fence_concat:
  "scan_fence lines c n i body = (b, cl, j) \<Longrightarrow> i \<le> length lines \<Longrightarrow>
   concat b @ cl @ concat (drop j lines) = concat body @ concat (drop i lines) \<and> j \<le> length lines"
proof (induction lines c n i body rule: scan_fence.induct)
  case (1 lines c n i body)
  show ?case
  proof (cases "i < length lines")
    case False
    with "1.prems" show ?thesis by (subst (asm) scan_fence.simps) auto
  next
    case True
    show ?thesis
    proof (cases "is_close c n (lines ! i)")
      case True
      with \<open>i < length lines\<close> "1.prems" show ?thesis
        by (subst (asm) scan_fence.simps) (auto simp: drop_step)
    next
      case False
      with True "1.prems" have "scan_fence lines c n (i + 1) (body @ [lines ! i]) = (b, cl, j)"
        by (subst (asm) scan_fence.simps) simp
      from "1.IH" [OF True refl False this] True show ?thesis by (simp add: drop_step)
    qed
  qed
qed

lemma para_loop_concat:
  "para_loop lines i ps = (p, j) \<Longrightarrow> i \<le> length lines \<Longrightarrow>
   concat p @ concat (drop j lines) = concat ps @ concat (drop i lines) \<and> j \<le> length lines"
proof (induction lines i ps rule: para_loop.induct)
  case (1 lines i ps)
  show ?case
  proof (cases "i < length lines \<and> \<not> is_blank (lines ! i) \<and> heading_match (lines ! i) = None \<and>
                fence_open_match (lines ! i) = None")
    case True
    with "1.prems" have "para_loop lines (i + 1) (ps @ [lines ! i]) = (p, j)"
      by (subst (asm) para_loop.simps) simp
    from "1.IH" [OF _ _ _ _ this] True show ?thesis by (simp add: drop_step)
  next
    case False
    with "1.prems" show ?thesis by (subst (asm) para_loop.simps) (auto split: if_splits)
  qed
qed

text \<open>When the search ends without a closing line, it has read every line to the end.\<close>

lemma scan_fence_none:
  "scan_fence lines c n i body = (b, cl, j) \<Longrightarrow> i \<le> length lines \<Longrightarrow>
   (\<forall>k. i \<le> k \<and> k < length lines \<and> is_close c n (lines ! k) \<longrightarrow> lines ! k \<noteq> []) \<Longrightarrow>
   cl = [] \<Longrightarrow> j = length lines \<and> b = body @ drop i lines \<and>
      (\<forall>k. i \<le> k \<and> k < length lines \<longrightarrow> \<not> is_close c n (lines ! k))"
proof (induction lines c n i body rule: scan_fence.induct)
  case (1 lines c n i body)
  show ?case
  proof (cases "i < length lines")
    case False
    with "1.prems" show ?thesis by (subst (asm) scan_fence.simps) auto
  next
    case True
    show ?thesis
    proof (cases "is_close c n (lines ! i)")
      case True
      with \<open>i < length lines\<close> "1.prems" show ?thesis
        by (subst (asm) scan_fence.simps) auto
    next
      case False
      with True "1.prems" have "scan_fence lines c n (i + 1) (body @ [lines ! i]) = (b, cl, j)"
        by (subst (asm) scan_fence.simps) simp
      from "1.IH" [OF True refl False this] True "1.prems" False
      have "j = length lines \<and> b = (body @ [lines ! i]) @ drop (i + 1) lines \<and>
            (\<forall>k. i + 1 \<le> k \<and> k < length lines \<longrightarrow> \<not> is_close c n (lines ! k))" by simp
      then show ?thesis using True False
        by (auto simp flip: Cons_nth_drop_Suc) (metis Suc_leI le_neq_implies_less)
    qed
  qed
qed

text \<open>
  The loops in closed form. The blank loop takes the longest run of blank lines, the
  paragraph loop the longest run of lines that are not blank, no heading and no opening
  fence, and the search for the closing line stops at the first closing line.
\<close>

definition continues_paragraph :: "string \<Rightarrow> bool" where
  "continues_paragraph l = (\<not> is_blank l \<and> heading_match l = None \<and> fence_open_match l = None)"

lemma blank_run_eq:
  "blank_run lines i acc =
     (acc @ concat (takeWhile is_blank (drop i lines)), i + length (takeWhile is_blank (drop i lines)))"
proof (induction lines i acc rule: blank_run.induct)
  case (1 lines i acc)
  show ?case
  proof (cases "i < length lines \<and> is_blank (lines ! i)")
    case True
    then have d: "drop i lines = lines ! i # drop (i + 1) lines" by (simp add: Cons_nth_drop_Suc)
    from "1.IH" [OF True] True show ?thesis
      by (subst blank_run.simps) (simp add: d)
  next
    case False
    show ?thesis
    proof (cases "i < length lines")
      case True
      then have d: "drop i lines = lines ! i # drop (i + 1) lines" by (simp add: Cons_nth_drop_Suc)
      with False True show ?thesis by (subst blank_run.simps) (simp add: d)
    next
      case False
      then show ?thesis by (subst blank_run.simps) simp
    qed
  qed
qed

lemma para_loop_eq:
  "para_loop lines i ps =
     (ps @ takeWhile continues_paragraph (drop i lines),
      i + length (takeWhile continues_paragraph (drop i lines)))"
proof (induction lines i ps rule: para_loop.induct)
  case (1 lines i ps)
  show ?case
  proof (cases "i < length lines")
    case False
    then show ?thesis by (subst para_loop.simps) simp
  next
    case True
    then have d: "drop i lines = lines ! i # drop (i + 1) lines" by (simp add: Cons_nth_drop_Suc)
    show ?thesis
    proof (cases "continues_paragraph (lines ! i)")
      case c: True
      then have c': "\<not> is_blank (lines ! i)" "\<not> heading_match (lines ! i) \<noteq> None"
        "\<not> fence_open_match (lines ! i) \<noteq> None"
        by (simp_all add: continues_paragraph_def)
      from "1.IH" [OF True c'] True c c' show ?thesis
        by (subst para_loop.simps) (simp add: d)
    next
      case False
      with True show ?thesis
        by (subst para_loop.simps) (auto simp: d continues_paragraph_def)
    qed
  qed
qed

lemma blank_run_stops:
  "blank_run lines i acc = (a, j) \<Longrightarrow> j < length lines \<Longrightarrow> \<not> is_blank (lines ! j)"
proof -
  assume b: "blank_run lines i acc = (a, j)" and j: "j < length lines"
  let ?tw = "takeWhile is_blank (drop i lines)"
  from b have je: "j = i + length ?tw" by (simp add: blank_run_eq)
  with j have "length ?tw < length (drop i lines)" by simp
  from nth_length_takeWhile [OF this] have "\<not> is_blank (drop i lines ! length ?tw)" .
  with je j show ?thesis by simp
qed

lemma list_all_takeWhile: "list_all P (takeWhile P xs)"
  by (induction xs) auto


lemma scan_fence_found:
  "scan_fence lines c n i body = (b, cl, j) \<Longrightarrow> cl \<noteq> [] \<Longrightarrow>
   \<exists>m. b = body @ take m (drop i lines) \<and>
       list_all (\<lambda>l. \<not> is_close c n l) (take m (drop i lines)) \<and>
       i + m < length lines \<and> cl = lines ! (i + m) \<and> is_close c n cl \<and> j = i + m + 1"
proof (induction lines c n i body rule: scan_fence.induct)
  case (1 lines c n i body)
  show ?case
  proof (cases "i < length lines")
    case False
    with "1.prems" show ?thesis by (subst (asm) scan_fence.simps) auto
  next
    case True
    show ?thesis
    proof (cases "is_close c n (lines ! i)")
      case True
      with \<open>i < length lines\<close> "1.prems" show ?thesis
        by (subst (asm) scan_fence.simps) (auto intro!: exI [of _ 0])
    next
      case False
      with True "1.prems" have "scan_fence lines c n (i + 1) (body @ [lines ! i]) = (b, cl, j)"
        by (subst (asm) scan_fence.simps) simp
      from "1.IH" [OF True refl False this "1.prems"(2)] obtain m where
        m: "b = (body @ [lines ! i]) @ take m (drop (i + 1) lines)"
          "list_all (\<lambda>l. \<not> is_close c n l) (take m (drop (i + 1) lines))"
          "i + 1 + m < length lines" "cl = lines ! (i + 1 + m)" "is_close c n cl" "j = i + 1 + m + 1"
        by blast
      have tk: "take (Suc m) (drop i lines) = lines ! i # take m (drop (i + 1) lines)"
        using True by (simp flip: Cons_nth_drop_Suc)
      show ?thesis
        using m False unfolding tk [symmetric] by (intro exI [of _ "Suc m"]) (simp add: tk)
    qed
  qed
qed


text \<open>
  The lines of \<open>splitlines\<close> are lines: a run of consecutive lines, joined and split
  again, gives the same lines.
\<close>

definition nobreak :: "string \<Rightarrow> bool" where
  "nobreak xs = list_all (\<lambda>c. \<not> is_linebreak c) xs"

lemma splitlines_from_nobreak:
  "nobreak xs \<Longrightarrow> splitlines_from cur (xs @ s) = splitlines_from (cur @ xs) s"
proof (induction xs arbitrary: cur)
  case Nil
  then show ?case by simp
next
  case (Cons x xs)
  then have x: "\<not> is_linebreak x" "nobreak xs" by (simp_all add: nobreak_def)
  then have ncr: "x \<noteq> CR" by (auto simp: is_linebreak_def CR_def)
  show ?case
  proof (cases "xs @ s")
    case Nil
    then show ?thesis by simp
  next
    case (Cons d r)
    have "splitlines_from cur ((x # xs) @ s) = splitlines_from (cur @ [x]) (xs @ s)"
      using Cons x(1) ncr by simp
    also have "\<dots> = splitlines_from ((cur @ [x]) @ xs) s" by (rule Cons.IH [OF x(2)])
    finally show ?thesis by simp
  qed
qed

lemma splitlines_from_take:
  "nobreak cur \<Longrightarrow>
   splitlines_from [] (concat (take n (splitlines_from cur s))) = take n (splitlines_from cur s)"
proof (induction cur s arbitrary: n rule: splitlines_from.induct)
  case (1 cur)
  show ?case
  proof (cases "cur = [] \<or> n = 0")
    case True
    then show ?thesis by auto
  next
    case False
    then obtain m where "n = Suc m" "cur \<noteq> []" by (cases n) auto
    then show ?thesis using splitlines_from_nobreak [OF "1.prems", of "[]" "[]"] by simp
  qed
next
  case (2 cur c)
  show ?case
  proof (cases n)
    case 0
    then show ?thesis by simp
  next
    case (Suc m)
    then show ?thesis using splitlines_from_nobreak [OF "2.prems", of "[]" "[c]"] by simp
  qed
next
  case (3 cur c d s)
  show ?case
  proof (cases n)
    case 0
    then show ?thesis by simp
  next
    case (Suc m)
    show ?thesis
    proof (cases "c = CR \<and> d = LF")
      case True
      define T where "T = take m (splitlines_from [] s)"
      define X where "X = concat T"
      have eq: "splitlines_from cur (c # d # s) = (cur @ [c, d]) # splitlines_from [] s"
        using True by simp
      have IH: "splitlines_from [] X = T"
        using "3.IH"(1) [OF True, of m] by (simp add: nobreak_def X_def T_def)
      have tk: "take n (splitlines_from cur (c # d # s)) = (cur @ [c, d]) # T"
        unfolding eq Suc T_def by simp
      have "splitlines_from [] (cur @ (c # d # X)) = splitlines_from ([] @ cur) (c # d # X)"
        by (rule splitlines_from_nobreak [OF "3.prems"])
      also have "\<dots> = (cur @ [c, d]) # T" using True IH by simp
      finally show ?thesis unfolding tk by (simp add: X_def)
    next
      case nocrlf: False
      show ?thesis
      proof (cases "is_linebreak c")
        case True
        define T where "T = take m (splitlines_from [] (d # s))"
        define X where "X = concat T"
        have eq: "splitlines_from cur (c # d # s) = (cur @ [c]) # splitlines_from [] (d # s)"
          using nocrlf True by auto
        have IH: "splitlines_from [] X = T"
          using "3.IH"(2) [OF nocrlf True, of m] by (simp add: nobreak_def X_def T_def)
        have tk: "take n (splitlines_from cur (c # d # s)) = (cur @ [c]) # T"
          unfolding eq Suc T_def by simp
        have "X @ concat (drop m (splitlines_from [] (d # s))) = d # s"
          unfolding X_def T_def using splitlines_from_concat [of "[]" "d # s"]
          by (metis append_Nil append_take_drop_id concat_append)
        then have X: "X = [] \<or> (\<exists>X'. X = d # X')" by (cases X) auto
        have g: "splitlines_from [] (cur @ (c # X)) = splitlines_from ([] @ cur) (c # X)"
          by (rule splitlines_from_nobreak [OF "3.prems"])
        have "splitlines_from cur (c # X) = (cur @ [c]) # T"
        proof (cases "X = []")
          case e: True
          have "T = splitlines_from [] X" using IH by simp
          also have "\<dots> = []" unfolding e by simp
          finally show ?thesis unfolding e by simp
        next
          case False
          with X obtain X' where e: "X = d # X'" by blast
          have "splitlines_from cur (c # d # X') = (cur @ [c]) # splitlines_from [] (d # X')"
            using True nocrlf by auto
          then show ?thesis using IH unfolding e by simp
        qed
        with g have "splitlines_from [] (cur @ (c # X)) = (cur @ [c]) # T" by simp
        then show ?thesis unfolding tk by (simp add: X_def)
      next
        case False
        have eq: "splitlines_from cur (c # d # s) = splitlines_from (cur @ [c]) (d # s)"
          using nocrlf False by auto
        have "nobreak (cur @ [c])" using "3.prems" False by (simp add: nobreak_def)
        from "3.IH"(3) [OF nocrlf False this, of n] show ?thesis unfolding eq .
      qed
    qed
  qed
qed

lemma splitlines_from_drop:
  "nobreak cur \<Longrightarrow>
   \<exists>cur' s'. nobreak cur' \<and> drop i (splitlines_from cur s) = splitlines_from cur' s'"
proof (induction cur s arbitrary: i rule: splitlines_from.induct)
  case (1 cur)
  show ?case
  proof (cases i)
    case 0
    with "1.prems" show ?thesis by (intro exI [of _ cur] exI [of _ "[]"]) simp
  next
    case (Suc m)
    then show ?thesis by (intro exI [of _ "[]"] exI [of _ "[]"]) (simp add: nobreak_def)
  qed
next
  case (2 cur c)
  show ?case
  proof (cases i)
    case 0
    with "2.prems" show ?thesis by (intro exI [of _ cur] exI [of _ "[c]"]) simp
  next
    case (Suc m)
    then show ?thesis by (intro exI [of _ "[]"] exI [of _ "[]"]) (simp add: nobreak_def)
  qed
next
  case (3 cur c d s)
  have nb: "nobreak []" by (simp add: nobreak_def)
  show ?case
  proof (cases i)
    case 0
    with "3.prems" show ?thesis by (intro exI [of _ cur] exI [of _ "c # d # s"]) simp
  next
    case (Suc m)
    show ?thesis
    proof (cases "c = CR \<and> d = LF")
      case True
      have eq: "splitlines_from cur (c # d # s) = (cur @ [c, d]) # splitlines_from [] s"
        using True by simp
      from "3.IH"(1) [OF True nb, of m] show ?thesis unfolding eq Suc by simp
    next
      case nocrlf: False
      show ?thesis
      proof (cases "is_linebreak c")
        case True
        have eq: "splitlines_from cur (c # d # s) = (cur @ [c]) # splitlines_from [] (d # s)"
          using nocrlf True by auto
        from "3.IH"(2) [OF nocrlf True nb, of m] show ?thesis unfolding eq Suc by simp
      next
        case False
        have eq: "splitlines_from cur (c # d # s) = splitlines_from (cur @ [c]) (d # s)"
          using nocrlf False by auto
        have "nobreak (cur @ [c])" using "3.prems" False by (simp add: nobreak_def)
        from "3.IH"(3) [OF nocrlf False this, of i] show ?thesis unfolding eq .
      qed
    qed
  qed
qed

lemma splitlines_sub:
  "splitlines (concat (take n (drop i (splitlines s)))) = take n (drop i (splitlines s))"
proof -
  have "nobreak []" by (simp add: nobreak_def)
  from splitlines_from_drop [OF this, of i s] obtain cur' s' where
    d: "nobreak cur'" "drop i (splitlines_from [] s) = splitlines_from cur' s'" by blast
  from splitlines_from_take [OF d(1), of n s'] d(2) show ?thesis by (simp add: splitlines_def)
qed

lemma splitlines_nth:
  "i < length (splitlines s) \<Longrightarrow> splitlines (splitlines s ! i) = [splitlines s ! i]"
  using splitlines_sub [of 1 i s] by (simp add: take_Suc_conv_app_nth hd_drop_conv_nth take_Suc)

lemma splitlines_takeWhile:
  "splitlines (concat (takeWhile P (drop i (splitlines s)))) = takeWhile P (drop i (splitlines s))"
  using splitlines_sub [of "length (takeWhile P (drop i (splitlines s)))" i s]
  by (simp add: takeWhile_eq_take [symmetric])

section \<open>The shape of the lines a pattern matches\<close>

lemma all_one_char: "list_all (cls_has (OneOf [c])) p \<Longrightarrow> p = replicate (length p) c"
  by (induction p) auto

lemma heading_level:
  "heading_match line = Some hm \<Longrightarrow>
   1 \<le> length (group hm ''hashes'') \<and> length (group hm ''hashes'') \<le> 6"
  unfolding heading_match_def heading_re_def star_def lazy_star_def plus_def eol_re_def
    opt_char_def one_char_def
  by (auto dest!: re_match_sound simp: group_def)

lemma heading_shape:
  "heading_match line = Some hm \<Longrightarrow>
   \<exists>ind k rest. line = ind @ replicate k (CHR ''#'') @ rest \<and> 1 \<le> k \<and> list_all (cls_has sp_tab) ind"
  unfolding heading_match_def heading_re_def star_def lazy_star_def plus_def eol_re_def
    opt_char_def one_char_def
  apply (drule re_match_sound)
  apply (clarsimp)
  apply (elim disjE exE conjE)
  subgoal for p1 p2 p3 p4 p5
    apply (rule exI [of _ p1], rule exI [of _ "length p2"])
    apply (frule all_one_char [of "CHR ''#''"]) 
    by (auto)
  subgoal for p1 p2 p3 p4 p5
    apply (rule exI [of _ p1], rule exI [of _ "length p2"])
    apply (frule all_one_char [of "CHR ''#''"]) 
    by auto
  done

lemma fence_open_den:
  "fence_open_match line = Some fm \<Longrightarrow>
   \<exists>p1 p2 rest. line = p1 @ p2 @ rest \<and> list_all (cls_has sp_tab) p1 \<and> 3 \<le> length p2 \<and>
      (list_all (cls_has (OneOf [backtick])) p2 \<or> list_all (cls_has (OneOf [tilde])) p2) \<and>
      group fm ''fence'' = p2"
  unfolding fence_open_match_def fence_open_re_def star_def at_least_def eol_re_def
    opt_char_def one_char_def
  by (drule re_match_sound) (fastforce simp: group_def)

lemma fence_open_shape:
  assumes "fence_open_match line = Some fm"
  shows "\<exists>ind k c rest. line = ind @ replicate k c @ rest \<and> 3 \<le> k \<and> c \<in> {backtick, tilde} \<and>
      group fm ''fence'' = replicate k c \<and> list_all (cls_has sp_tab) ind"
proof -
  from fence_open_den [OF assms] obtain p1 p2 rest where
    l: "line = p1 @ p2 @ rest" "list_all (cls_has sp_tab) p1" "3 \<le> length p2"
      "group fm ''fence'' = p2"
    and d: "list_all (cls_has (OneOf [backtick])) p2 \<or> list_all (cls_has (OneOf [tilde])) p2"
    by blast
  from d obtain c where c: "c \<in> {backtick, tilde}" "p2 = replicate (length p2) c"
    using all_one_char by blast
  show ?thesis
    using l c by (intro exI [of _ p1] exI [of _ "length p2"] exI [of _ c] exI [of _ rest]) auto
qed

lemma is_close_shape:
  "is_close c n l \<Longrightarrow>
   \<exists>ind k rest. l = ind @ replicate k c @ rest \<and> n \<le> k \<and> list_all (cls_has sp_tab) ind"
  unfolding is_close_def fence_close_re_def star_def at_least_def opt_char_def
  apply (clarsimp)
  apply (drule re_match_sound)
  apply (clarsimp)
  subgoal for p1 p2 p3 p4 p5 p6
    apply (rule exI [of _ p1], rule exI [of _ "length p2"])
    apply (frule all_one_char) 
    by auto
  done

section \<open>The stack of open headings\<close>

text \<open>
  A document or a heading serialises its own part and then its children, one after the
  other. \<open>spine p t\<close>: the path \<open>p\<close> runs through such nodes of \<open>t\<close> and takes the last
  child at every step. \<open>refs tp\<close> lists the paths of the nodes on the way to \<open>tp\<close>, the
  document first.
\<close>

definition branchy :: "node \<Rightarrow> bool" where
  "branchy n = (case flds n of DocumentFields _ \<Rightarrow> True | HeadingFields _ \<Rightarrow> True | _ \<Rightarrow> False)"

fun spine :: "path \<Rightarrow> node \<Rightarrow> bool" where
  "spine [] n = branchy n"
| "spine (k # p) n =
     (branchy n \<and> children n \<noteq> [] \<and> k = length (children n) - 1 \<and> spine p (last (children n)))"

definition refs :: "path \<Rightarrow> path list" where
  "refs tp = map (\<lambda>j. take j tp) [0 ..< Suc (length tp)]"

lemma branchy_snoc:
  "branchy n \<Longrightarrow>
   ToMarkdown (Node (Type n) (dirty_self n) (flds n) (cs @ [c])) =
   ToMarkdown (Node (Type n) (dirty_self n) (flds n) cs) @ ToMarkdown c"
  by (cases "flds n") (auto simp: branchy_def Let_def)

lemma append_spine:
  "spine p t \<Longrightarrow>
   \<exists>t' pn. append_parsed_at p c t = Inr t' \<and> node_at p t = Inr pn \<and>
      ToMarkdown t' = ToMarkdown t @ ToMarkdown c \<and> spine p t' \<and>
      (branchy c \<longrightarrow> spine (p @ [length (children pn)]) t') \<and>
      Type t' = Type t \<and> dirty_self t' = dirty_self t \<and> flds t' = flds t"
proof (induction p arbitrary: t)
  case Nil
  then show ?case
    using branchy_snoc [of t "children t" c]
    by (cases t) (auto simp: append_parsed_at_def AppendChildParsed_def branchy_def)
next
  case (Cons k q)
  obtain ty d f cs where t: "t = Node ty d f cs" by (cases t)
  from Cons.prems t have b: "branchy t" "cs \<noteq> []" "k = length cs - 1" "spine q (last cs)"
    by auto
  from Cons.IH [OF b(4)] obtain c' pn where
    IH: "append_parsed_at q c (last cs) = Inr c'" "node_at q (last cs) = Inr pn"
      "ToMarkdown c' = ToMarkdown (last cs) @ ToMarkdown c" "spine q c'"
      "branchy c \<longrightarrow> spine (q @ [length (children pn)]) c'"
    by blast
  have nth: "cs ! k = last cs" using b by (simp add: last_conv_nth)
  have upd: "cs[k := c'] = butlast cs @ [c']"
    using b by (metis append_butlast_last_id length_butlast list_update_length)
  have cs: "cs = butlast cs @ [last cs]" using b by simp
  let ?t' = "Node ty d f (butlast cs @ [c'])"
  have 1: "append_parsed_at (k # q) c t = Inr ?t'"
    using IH(1) b t nth upd by (simp add: append_parsed_at_def)
  have 2: "node_at (k # q) t = Inr pn" using IH(2) b t nth by simp
  have "ToMarkdown ?t' = ToMarkdown (Node ty d f (butlast cs)) @ ToMarkdown c'"
    using branchy_snoc [OF b(1), of "butlast cs" c'] t by simp
  also have "\<dots> = ToMarkdown (Node ty d f (butlast cs)) @ ToMarkdown (last cs) @ ToMarkdown c"
    using IH(3) by simp
  also have "\<dots> = ToMarkdown (Node ty d f (butlast cs @ [last cs])) @ ToMarkdown c"
    using branchy_snoc [OF b(1), of "butlast cs" "last cs"] t by simp
  finally have 3: "ToMarkdown ?t' = ToMarkdown t @ ToMarkdown c" using cs t by simp
  have br: "branchy ?t'" using b(1) t by (simp add: branchy_def)
  have 4: "spine (k # q) ?t'" using br b IH(4) by simp
  have 5: "branchy c \<longrightarrow> spine ((k # q) @ [length (children pn)]) ?t'"
    using br b IH(5) by simp
  have 6: "Type ?t' = Type t \<and> dirty_self ?t' = dirty_self t \<and> flds ?t' = flds t"
    using t by simp
  from 1 2 3 4 5 6 show ?case by blast
qed

lemma spine_take: "spine p t \<Longrightarrow> spine (take n p) t"
proof (induction p arbitrary: t n)
  case Nil
  then show ?case by simp
next
  case (Cons k q)
  then show ?case by (cases n) auto
qed

lemma refs_last [simp]: "last (refs tp) = tp"
  by (simp add: refs_def last_map)

lemma refs_nonempty [simp]: "refs tp \<noteq> []"
  by (simp add: refs_def)

lemma refs_length [simp]: "length (refs tp) = Suc (length tp)"
  by (simp add: refs_def)

lemma refs_snoc: "refs (tp @ [k]) = refs tp @ [tp @ [k]]"
  by (simp add: refs_def)

lemma refs_take:
  assumes "1 \<le> n" "n \<le> Suc (length tp)"
  shows "take n (refs tp) = refs (take (n - 1) tp)"
proof (rule nth_equalityI)
  show "length (take n (refs tp)) = length (refs (take (n - 1) tp))"
    using assms by (simp add: refs_def)
next
  fix i assume "i < length (take n (refs tp))"
  with assms have i: "i < n" "i \<le> length tp" by (simp_all add: refs_def)
  then have "take n (refs tp) ! i = take i tp"
    by (simp add: refs_def del: upt_Suc)
  moreover have "refs (take (n - 1) tp) ! i = take i (take (n - 1) tp)"
    using i assms unfolding refs_def by (subst nth_map) (simp_all del: upt_Suc)
  moreover have "i \<le> n - 1" using i by simp
  then have "take i (take (n - 1) tp) = take i tp"
    by (simp add: min_absorb1)
  ultimately show "take n (refs tp) ! i = refs (take (n - 1) tp) ! i" by simp
qed

lemma pop_open_take:
  "length stk = length lvls \<Longrightarrow>
   \<exists>n. pop_open stk lvls level = Inr (take n stk, take n lvls) \<and> n \<le> length lvls \<and>
       (n = 0 \<or> lvls ! (n - 1) < level) \<and>
       (\<forall>j. n \<le> j \<and> j < length lvls \<longrightarrow> level \<le> lvls ! j)"
proof (induction stk lvls level rule: pop_open.induct)
  case (1 stk lvls level)
  show ?case
  proof (cases "lvls \<noteq> [] \<and> last lvls \<ge> level")
    case False
    then have "pop_open stk lvls level = Inr (stk, lvls)"
      by (subst pop_open.simps) auto
    moreover have "length lvls = 0 \<or> lvls ! (length lvls - 1) < level"
      using False by (cases "lvls = []") (simp_all add: last_conv_nth)
    ultimately show ?thesis
      using "1.prems" by (intro exI [of _ "length lvls"]) simp
  next
    case True
    with "1.prems" have ne: "stk \<noteq> []" by auto
    from "1.IH" [OF True ne] "1.prems" obtain n where
      n: "pop_open (butlast stk) (butlast lvls) level = Inr (take n (butlast stk), take n (butlast lvls))"
        "n \<le> length (butlast lvls)"
        "n = 0 \<or> butlast lvls ! (n - 1) < level"
        "\<forall>j. n \<le> j \<and> j < length (butlast lvls) \<longrightarrow> level \<le> butlast lvls ! j"
      by auto
    have p: "pop_open stk lvls level = pop_open (butlast stk) (butlast lvls) level"
      using True ne by (subst pop_open.simps) simp
    have t1: "take n (butlast stk) = take n stk" "take n (butlast lvls) = take n lvls"
    proof -
      from True obtain m where "length lvls = Suc m" by (cases lvls) auto
      with n(2) have "n < length lvls" by simp
      then show "take n (butlast stk) = take n stk" "take n (butlast lvls) = take n lvls"
        using "1.prems" by (simp_all add: take_butlast)
    qed
    have l: "\<forall>j. n \<le> j \<and> j < length lvls \<longrightarrow> level \<le> lvls ! j"
    proof (intro allI impI)
      fix j assume j: "n \<le> j \<and> j < length lvls"
      show "level \<le> lvls ! j"
      proof (cases "j < length (butlast lvls)")
        case True
        with n(4) j show ?thesis by (simp add: nth_butlast)
      next
        case False
        with j have "j = length lvls - 1" by auto
        with \<open>lvls \<noteq> [] \<and> last lvls \<ge> level\<close> show ?thesis by (auto simp: last_conv_nth)
      qed
    qed
    have m: "n = 0 \<or> lvls ! (n - 1) < level"
      using n(2,3) by (cases n) (auto simp: nth_butlast)
    show ?thesis using p n(1,2) t1 l m by (intro exI [of _ n]) auto
  qed
qed

section \<open>The Text setter\<close>

text \<open>
  C9. After \<open>node.Text = v\<close> the getter returns \<open>v.strip()\<close> on a TextNode, on a LinkNode
  (the label) and on a HeadingNode (the title): the whitespace around the assigned value
  is dropped, and the serialised node keeps the trivia that was captured around the old
  core. On a CodeBlockNode the getter returns \<open>v\<close> as it was assigned.
\<close>

theorem text_setter_normalization:
  "(\<forall>f. flds n = TextFields f \<longrightarrow>
      (\<exists>n'. set_Text v n = Inr n' \<and> get_Text n' = strip v \<and>
            ToMarkdown n' = t_leading f @ strip v @ t_trailing f))
   \<and> (\<forall>f. flds n = LinkFields f \<longrightarrow>
      (\<exists>n'. set_Text v n = Inr n' \<and> get_Text n' = strip v \<and>
            ToMarkdown n' = (if is_image f then ''!'' else []) @ ''['' @
              label_leading f @ strip v @ label_trailing f @ '']('' @
              href_leading f @ href_core f @ href_trailing f @ '')''))
   \<and> (\<forall>f. flds n = HeadingFields f \<longrightarrow>
      (\<exists>n'. set_Text v n = Inr n' \<and> get_Text n' = strip v \<and>
            ToMarkdown n' = prefix f @ title_leading f @ strip v @ title_trailing f @
              line_suffix f @ h_block_suffix f @ concat (map ToMarkdown (children n))))
   \<and> (\<forall>f. flds n = CodeFields f \<longrightarrow>
      (\<exists>n'. set_Text v n = Inr n' \<and> get_Text n' = v))"
  by (cases n) (simp add: set_Text_def get_Text_def MarkDirty_def)

theorem text_setter_normalization_witness:
  "(\<exists>n'. set_Text ''  new title  '' (TextNode '' old  \<newline>'') = Inr n' \<and>
        get_Text n' = ''new title'' \<and> ToMarkdown n' = '' new title  \<newline>'') \<and>
   (\<exists>n'. set_Text '' b '' (LinkNode ''[ a ](u)'' '' a '' ''u'' False) = Inr n' \<and>
        get_Text n' = ''b'' \<and> ToMarkdown n' = ''[ b ](u)'') \<and>
   HeadingNode 2 ''## T \<newline>'' ''## '' ''T'' '' \<newline>'' [] =
     Inr (Node Heading2 False
            (HeadingFields \<lparr>Level = 2, raw_line_original = ''## T \<newline>'', prefix = ''## '',
               title_leading = [], title_core = ''T'', title_trailing = [],
               line_suffix = '' \<newline>'', h_block_suffix = []\<rparr>) []) \<and>
   (\<exists>n'. set_Text '' New ''
           (Node Heading2 False
              (HeadingFields \<lparr>Level = 2, raw_line_original = ''## T \<newline>'', prefix = ''## '',
                 title_leading = [], title_core = ''T'', title_trailing = [],
                 line_suffix = '' \<newline>'', h_block_suffix = []\<rparr>) []) = Inr n' \<and>
        get_Text n' = ''New'' \<and> ToMarkdown n' = ''## New \<newline>'') \<and>
   (\<exists>n'. set_Text '' x = 1\<newline>'' (CodeBlockNode ''```\<newline>'' ''y\<newline>'' ''```\<newline>'' []) = Inr n' \<and>
        get_Text n' = '' x = 1\<newline>'')"
proof (intro conjI)
  have t: "flds (TextNode '' old  \<newline>'') =
             TextFields \<lparr>t_raw_original = '' old  \<newline>'', t_leading = '' '',
                          t_core = ''old'', t_trailing = ''  \<newline>''\<rparr>"
    by code_simp
  have s: "strip ''  new title  '' = ''new title''"
    by code_simp
  from text_setter_normalization [of "TextNode '' old  \<newline>''" "''  new title  ''"] t
  have "\<exists>n'. set_Text ''  new title  '' (TextNode '' old  \<newline>'') = Inr n' \<and>
          get_Text n' = strip ''  new title  '' \<and>
          ToMarkdown n' = '' '' @ strip ''  new title  '' @ ''  \<newline>''"
    by simp
  then show "\<exists>n'. set_Text ''  new title  '' (TextNode '' old  \<newline>'') = Inr n' \<and>
        get_Text n' = ''new title'' \<and> ToMarkdown n' = '' new title  \<newline>''"
    by (simp add: s)
next
  have l: "flds (LinkNode ''[ a ](u)'' '' a '' ''u'' False) =
             LinkFields \<lparr>l_raw_original = ''[ a ](u)'', is_image = False, label_leading = '' '',
               label_core = ''a'', label_trailing = '' '', href_leading = [], href_core = ''u'',
               href_trailing = []\<rparr>"
    by code_simp
  have s: "strip '' b '' = ''b''" by code_simp
  from text_setter_normalization [of "LinkNode ''[ a ](u)'' '' a '' ''u'' False" "'' b ''"] l
  have "\<exists>n'. set_Text '' b '' (LinkNode ''[ a ](u)'' '' a '' ''u'' False) = Inr n' \<and>
          get_Text n' = strip '' b '' \<and>
          ToMarkdown n' = ''['' @ '' '' @ strip '' b '' @ '' '' @ '']('' @ ''u'' @ '')''"
    by simp
  then show "\<exists>n'. set_Text '' b '' (LinkNode ''[ a ](u)'' '' a '' ''u'' False) = Inr n' \<and>
        get_Text n' = ''b'' \<and> ToMarkdown n' = ''[ b ](u)''"
    by (simp add: s)
next
  show "HeadingNode 2 ''## T \<newline>'' ''## '' ''T'' '' \<newline>'' [] =
     Inr (Node Heading2 False
            (HeadingFields \<lparr>Level = 2, raw_line_original = ''## T \<newline>'', prefix = ''## '',
               title_leading = [], title_core = ''T'', title_trailing = [],
               line_suffix = '' \<newline>'', h_block_suffix = []\<rparr>) [])"
    by code_simp
next
  let ?f = "\<lparr>Level = 2, raw_line_original = ''## T \<newline>'', prefix = ''## '',
                 title_leading = [], title_core = ''T'', title_trailing = [],
                 line_suffix = '' \<newline>'', h_block_suffix = []\<rparr>"
  have s: "strip '' New '' = ''New''" by code_simp
  from text_setter_normalization [of "Node Heading2 False (HeadingFields ?f) []" "'' New ''"]
  have "\<exists>n'. set_Text '' New '' (Node Heading2 False (HeadingFields ?f) []) = Inr n' \<and>
          get_Text n' = strip '' New '' \<and>
          ToMarkdown n' = ''## '' @ strip '' New '' @ '' \<newline>''"
    by simp
  then show "\<exists>n'. set_Text '' New '' (Node Heading2 False (HeadingFields ?f) []) = Inr n' \<and>
        get_Text n' = ''New'' \<and> ToMarkdown n' = ''## New \<newline>''"
    by (simp add: s)
next
  have c: "\<exists>f. flds (CodeBlockNode ''```\<newline>'' ''y\<newline>'' ''```\<newline>'' []) = CodeFields f"
    by (simp add: CodeBlockNode_def split: prod.splits)
  with text_setter_normalization [of "CodeBlockNode ''```\<newline>'' ''y\<newline>'' ''```\<newline>'' []" "'' x = 1\<newline>''"]
  show "\<exists>n'. set_Text '' x = 1\<newline>'' (CodeBlockNode ''```\<newline>'' ''y\<newline>'' ''```\<newline>'' []) = Inr n' \<and>
        get_Text n' = '' x = 1\<newline>''"
    by blast
qed

section \<open>The inline scanner rebuilds the text\<close>

text \<open>
  \<open>link_text f\<close> is the link written from its fields, as \<open>LinkNode.ToMarkdown\<close> writes
  a dirty link. A leaf as the scanner makes it: Text, Link or Image, without children,
  clean, and the raw text of a link is the link written from its captured fields.
\<close>

definition link_text :: "LinkNode_fields \<Rightarrow> string" where
  "link_text f =
     (if is_image f then ''!'' else []) @ ''['' @
     label_leading f @ label_core f @ label_trailing f @ '']('' @
     href_leading f @ href_core f @ href_trailing f @ '')''"

definition leaf :: "node \<Rightarrow> bool" where
  "leaf n =
     (Type n \<in> {Text, Link, Image} \<and> children n = [] \<and> \<not> dirty_self n \<and>
      (case flds n of
         TextFields f \<Rightarrow> True
       | LinkFields f \<Rightarrow> l_raw_original f = link_text f
       | _ \<Rightarrow> False))"

lemma ToMarkdown_TextNode [simp]: "ToMarkdown (TextNode r) = r"
  by (simp add: TextNode_def split: prod.splits)

lemma ToMarkdown_LinkNode [simp]: "ToMarkdown (LinkNode r l h b) = r"
  by (simp add: LinkNode_def split: prod.splits)

lemma leaf_TextNode [simp]: "leaf (TextNode r)"
  by (simp add: TextNode_def leaf_def split: prod.splits)

lemma leaf_LinkNode [simp]:
  "r = (if b then ''!'' else []) @ ''['' @ l @ '']('' @ h @ '')'' \<Longrightarrow> leaf (LinkNode r l h b)"
  by (auto simp: LinkNode_def leaf_def link_text_def split: prod.splits dest!: split_trivia_join)

lemma find_from_char: "find_from c xs k = Some j \<Longrightarrow> xs ! (j - k) = c"
proof (induction xs arbitrary: k)
  case Nil
  then show ?case by simp
next
  case (Cons x xs)
  show ?case
  proof (cases "x = c")
    case True
    with Cons.prems show ?thesis by simp
  next
    case False
    with Cons.prems have f: "find_from c xs (Suc k) = Some j" by simp
    from find_from_bounds [OF f] have "Suc k \<le> j" by simp
    then have "j - k = Suc (j - Suc k)" by simp
    with Cons.IH [OF f] show ?thesis by simp
  qed
qed

lemma find_char: "find s c start = Some j \<Longrightarrow> s ! j = c"
proof -
  assume f: "find s c start = Some j"
  from find_bounds [OF f] have b: "start \<le> j" "j < length s" by auto
  from f have "drop start s ! (j - start) = c" unfolding find_def by (rule find_from_char)
  with b show ?thesis by simp
qed

lemma slice_split: "a \<le> b \<Longrightarrow> b \<le> c \<Longrightarrow> slice s a c = slice s a b @ slice s b c"
proof -
  assume ab: "a \<le> b" and bc: "b \<le> c"
  have "take (c - a) (drop a s) = take ((b - a) + (c - b)) (drop a s)" using ab bc by simp
  also have "\<dots> = take (b - a) (drop a s) @ take (c - b) (drop (b - a) (drop a s))"
    by (rule take_add)
  finally show ?thesis using ab by (simp add: slice_def)
qed

lemma slice_one: "i < length s \<Longrightarrow> slice s i (Suc i) = [s ! i]"
  by (simp add: slice_def take_Suc_conv_app_nth flip: Cons_nth_drop_Suc)

lemma slice_two: "Suc i < length s \<Longrightarrow> slice s i (Suc (Suc i)) = [s ! i, s ! Suc i]"
  using slice_split [of i "Suc i" "Suc (Suc i)" s] by (simp add: slice_one)

lemma try_parse_link_text:
  assumes "try_parse_link raw pos b = Inr (Some (start, e, label, href))"
  shows "slice raw start e = (if b then ''!'' else []) @ ''['' @ label @ '']('' @ href @ '')''"
proof -
  define ls where "ls = (if b then pos + 2 else pos + 1)"
  from assms obtain cb cp where
    cb: "find raw (CHR '']'') ls = Some cb" "cb + 1 < length raw" "raw ! (cb + 1) = CHR ''(''"
    and cp: "find raw (CHR '')'') (cb + 2) = Some cp"
    and r: "start = pos" "e = cp + 1" "label = slice raw ls cb" "href = slice raw (cb + 2) cp"
    and hd: "if b then startswith_at raw ''!['' pos else pos < length raw \<and> raw ! pos = CHR ''[''"
    unfolding try_parse_link_def Let_def ls_def
    by (auto split: if_splits option.splits)
  from find_bounds [OF cb(1)] find_char [OF cb(1)] have b1: "ls \<le> cb" "raw ! cb = CHR '']''" by auto
  from find_bounds [OF cp] find_char [OF cp] have b2: "cb + 2 \<le> cp" "cp < length raw" "raw ! cp = CHR '')''"
    by auto
  have h: "slice raw pos ls = (if b then ''!'' else []) @ ''[''"
  proof (cases b)
    case True
    with hd have "take (Suc (Suc 0)) (drop pos raw) = ''![''" by (simp add: startswith_at_def)
    with True show ?thesis by (simp add: slice_def ls_def numeral_2_eq_2)
  next
    case False
    with hd show ?thesis using slice_one [of pos raw] by (simp add: ls_def)
  qed
  have pl: "pos \<le> ls" by (simp add: ls_def)
  have s1: "slice raw pos (cp + 1) = slice raw pos ls @ slice raw ls (cp + 1)"
    using pl b1(1) b2(1) by (intro slice_split) auto
  have s2: "slice raw ls (cp + 1) = slice raw ls cb @ slice raw cb (cp + 1)"
    using b1(1) b2(1) by (intro slice_split) auto
  have s3: "slice raw cb (cp + 1) = slice raw cb (cb + 2) @ slice raw (cb + 2) (cp + 1)"
    using b2(1) by (intro slice_split) auto
  have s4: "slice raw (cb + 2) (cp + 1) = slice raw (cb + 2) cp @ slice raw cp (cp + 1)"
    using b2(1) by (intro slice_split) auto
  have "slice raw pos (cp + 1) = slice raw pos ls @ slice raw ls cb @ slice raw cb (cb + 2) @
          slice raw (cb + 2) cp @ slice raw cp (cp + 1)"
    by (simp only: s1 s2 s3 s4)
  moreover have "slice raw cb (cb + 2) = ''](''"
    using slice_two [of cb raw] cb(2,3) b1(2) by simp
  moreover have "slice raw cp (cp + 1) = '')''"
    using slice_one [of cp raw] b2(2,3) by simp
  ultimately show ?thesis using h r by simp
qed

lemma attempt_text:
  "attempt g raw pos b = Inr (Some (start, e, label, href)) \<Longrightarrow>
   slice raw start e = (if b then ''!'' else []) @ ''['' @ label @ '']('' @ href @ '')''"
  unfolding attempt_def by (auto split: if_splits dest: try_parse_link_text)

lemma take_slice: "a \<le> b \<Longrightarrow> take a s @ slice s a b = take b s"
  unfolding slice_def by (metis add_diff_cancel_left' le_Suc_ex take_add)

lemma flush_text_inv:
  assumes "concat (map ToMarkdown nodes) = take b raw" "b \<le> u" "list_all leaf nodes"
    and "flush_text raw nodes b u = (ns, b')"
  shows "concat (map ToMarkdown ns) = take u raw \<and> list_all leaf ns"
  using assms unfolding flush_text_def by (auto split: if_splits simp: take_slice)

lemma attempt_ok: "i < length raw \<Longrightarrow> attempt g raw i b \<noteq> Inl e"
  unfolding attempt_def try_parse_link_def Let_def by (auto split: option.splits)

lemma parse_inlines_loop_inv:
  "b \<le> i \<Longrightarrow> i \<le> length raw \<Longrightarrow> concat (map ToMarkdown nodes) = take b raw \<Longrightarrow>
   list_all leaf nodes \<Longrightarrow>
   \<exists>ns. parse_inlines_loop raw i b nodes = Inr ns \<and> concat (map ToMarkdown ns) = raw \<and> list_all leaf ns"
proof (induction raw i b nodes rule: parse_inlines_loop.induct)
  case (1 raw i b nodes)
  show ?case
  proof (cases "i < length raw")
    case False
    with "1.prems" have "i = length raw" by simp
    obtain ns b' where f: "flush_text raw nodes b (length raw) = (ns, b')" by (cases "flush_text raw nodes b (length raw)")
    from flush_text_inv [OF "1.prems"(3) _ "1.prems"(4) f] "1.prems" \<open>i = length raw\<close>
    show ?thesis by (subst parse_inlines_loop.simps) (simp add: f)
  next
    case True
    show ?thesis
    proof (cases "attempt (startswith_at raw ''!['' i) raw i True")
      case (Inl e)
      with attempt_ok [OF True] show ?thesis by blast
    next
      case (Inr r)
      show ?thesis
      proof (cases r)
        case (Some q)
        obtain start e label href where q: "q = (start, e, label, href)" by (cases q)
        from attempt_bounds Inr Some q have se: "start = i" "i + 3 < e" "e \<le> length raw" by blast+
        from attempt_text Inr Some q
        have lt: "slice raw start e = (if True then ''!'' else []) @ ''['' @ label @ '']('' @ href @ '')''"
          by blast
        obtain ns b' where f: "flush_text raw nodes b start = (ns, b')" by (cases "flush_text raw nodes b start")
        from flush_text_inv [OF "1.prems"(3) _ "1.prems"(4) f] "1.prems" se
        have inv: "concat (map ToMarkdown ns) = take start raw" "list_all leaf ns" by auto
        have "\<exists>ns'. parse_inlines_loop raw e e (ns @ [LinkNode (slice raw start e) label href True]) = Inr ns' \<and>
               concat (map ToMarkdown ns') = raw \<and> list_all leaf ns'"
          using "1.IH"(3) [OF True Inr Some, of start "(e, label, href)" e "(label, href)" label href ns b']
            q f inv se leaf_LinkNode [OF lt]
          by (auto simp: take_slice)
        then show ?thesis using True Inr Some q f by (subst parse_inlines_loop.simps) simp
      next
        case None
        show ?thesis
        proof (cases "attempt (raw ! i = CHR ''['') raw i False")
          case (Inl e)
          with attempt_ok [OF True] show ?thesis by blast
        next
          case r2: (Inr r2)
          show ?thesis
          proof (cases r2)
            case (Some q)
            obtain start e label href where q: "q = (start, e, label, href)" by (cases q)
            from attempt_bounds r2 Some q have se: "start = i" "i + 3 < e" "e \<le> length raw" by blast+
            from attempt_text r2 Some q
            have lt: "slice raw start e = (if False then ''!'' else []) @ ''['' @ label @ '']('' @ href @ '')''"
              by blast
            obtain ns b' where f: "flush_text raw nodes b start = (ns, b')" by (cases "flush_text raw nodes b start")
            from flush_text_inv [OF "1.prems"(3) _ "1.prems"(4) f] "1.prems" se
            have inv: "concat (map ToMarkdown ns) = take start raw" "list_all leaf ns" by auto
            have "\<exists>ns'. parse_inlines_loop raw e e (ns @ [LinkNode (slice raw start e) label href False]) = Inr ns' \<and>
                   concat (map ToMarkdown ns') = raw \<and> list_all leaf ns'"
              using "1.IH"(2) [OF True Inr None r2 Some, of start "(e, label, href)" e "(label, href)" label href ns b']
                q f inv se leaf_LinkNode [OF lt]
              by (auto simp: take_slice)
            then show ?thesis using True Inr None r2 Some q f by (subst parse_inlines_loop.simps) simp
          next
            case n2: None
            have "\<exists>ns'. parse_inlines_loop raw (i + 1) b nodes = Inr ns' \<and>
                   concat (map ToMarkdown ns') = raw \<and> list_all leaf ns'"
              using "1.prems" True by (intro "1.IH"(1) [OF True Inr None r2 n2]) auto
            then show ?thesis using True Inr None r2 n2 by (subst parse_inlines_loop.simps) simp
          qed
        qed
      qed
    qed
  qed
qed

text \<open>
  C6. For every paragraph text the inline scanner returns a list of Text, Link and Image
  leaves, and the serialised leaves, in order and unchanged, joined give the text back.
\<close>

theorem inline_scanner_reconstruction:
  "\<exists>ns. parse_inlines raw = Inr ns \<and> concat (map ToMarkdown ns) = raw \<and>
        (\<forall>n \<in> set ns. Type n \<in> {Text, Link, Image} \<and> children n = [])"
  using parse_inlines_loop_inv [of 0 0 raw "[]"]
  unfolding parse_inlines_def by (auto simp: list_all_iff leaf_def)

theorem inline_scanner_reconstruction_witness:
  "\<exists>ns. parse_inlines ''See [docs](http://x) and ![img](y.png).'' = Inr ns \<and>
        map Type ns = [Text, Link, Text, Image, Text] \<and>
        concat (map ToMarkdown ns) = ''See [docs](http://x) and ![img](y.png).''"
proof -
  have e: "parse_inlines ''See [docs](http://x) and ![img](y.png).'' =
             Inr [TextNode ''See '', LinkNode ''[docs](http://x)'' ''docs'' ''http://x'' False,
                  TextNode '' and '', LinkNode ''![img](y.png)'' ''img'' ''y.png'' True,
                  TextNode ''.'']"
    by code_simp
  have t: "map Type [TextNode ''See '', LinkNode ''[docs](http://x)'' ''docs'' ''http://x'' False,
                  TextNode '' and '', LinkNode ''![img](y.png)'' ''img'' ''y.png'' True,
                  TextNode ''.''] = [Text, Link, Text, Image, Text]"
    by (simp add: TextNode_def LinkNode_def split: prod.splits)
  from inline_scanner_reconstruction [of "''See [docs](http://x) and ![img](y.png).''"]
  show ?thesis
    unfolding e using t by simp
qed

section \<open>The block parser keeps every line\<close>

lemma leaf_clean: "leaf n \<Longrightarrow> \<not> IsDirty n"
  by (cases n) (simp add: leaf_def)

lemma leaves_clean: "list_all leaf ns \<Longrightarrow> \<not> list_ex IsDirty ns"
  by (induction ns) (auto dest: leaf_clean)

text \<open>
  A tree as the parser builds it: no node is dirty, a paragraph holds leaves that
  serialise to its raw content, and the inner nodes are documents and headings.
\<close>

fun parsed :: "node \<Rightarrow> bool" where
  "parsed (Node ty d f cs) =
     (case f of
        BaseNode \<Rightarrow> False
      | TextFields _ \<Rightarrow> leaf (Node ty d f cs)
      | LinkFields _ \<Rightarrow> leaf (Node ty d f cs)
      | CodeFields _ \<Rightarrow> \<not> d \<and> cs = []
      | HeadingFields _ \<Rightarrow> \<not> d \<and> list_all parsed cs
      | ParagraphFields pf \<Rightarrow>
          \<not> d \<and> list_all leaf cs \<and> concat (map ToMarkdown cs) = p_raw_original pf
      | DocumentFields _ \<Rightarrow> list_all parsed cs)"

lemma leaf_parsed: "leaf n \<Longrightarrow> parsed n"
  by (cases n) (auto simp: leaf_def split: fields.splits)

lemma leaf_children: "leaf n \<Longrightarrow> children n = []"
  by (simp add: leaf_def)

lemma parsed_CodeBlockNode [simp]: "parsed (CodeBlockNode ol b cl s)"
  by (simp add: CodeBlockNode_def split: prod.splits)

lemma parsed_node_at: "parsed t \<Longrightarrow> node_at p t = Inr n \<Longrightarrow> parsed n"
proof (induction p arbitrary: t)
  case Nil
  then show ?case by simp
next
  case (Cons k q)
  obtain ty d f cs where t: "t = Node ty d f cs" by (cases t)
  from Cons.prems t have k: "k < length cs" and n: "node_at q (cs ! k) = Inr n"
    by (auto split: if_splits)
  from Cons.prems(1) t k have "parsed (cs ! k)"
    by (cases f) (auto simp: list_all_length dest: leaf_parsed leaf_children)
  from Cons.IH [OF this n] show ?case .
qed

lemma append_parsed_keeps:
  "spine p t \<Longrightarrow> parsed t \<Longrightarrow> parsed c \<Longrightarrow> append_parsed_at p c t = Inr t' \<Longrightarrow> parsed t'"
proof (induction p arbitrary: t t')
  case Nil
  then show ?case
    by (cases t) (auto simp: append_parsed_at_def AppendChildParsed_def branchy_def split: fields.splits)
next
  case (Cons k q)
  obtain ty d f cs where t: "t = Node ty d f cs" by (cases t)
  from Cons.prems t have b: "branchy t" "cs \<noteq> []" "k = length cs - 1" "spine q (last cs)"
    by auto
  have nth: "cs ! k = last cs" using b by (simp add: last_conv_nth)
  have kl: "k < length cs" using b by simp
  from Cons.prems(4) t kl nth obtain c' where
    c': "append_parsed_at q c (last cs) = Inr c'" "t' = Node ty d f (cs[k := c'])"
    by (auto simp: append_parsed_at_def split: sum.splits)
  from Cons.prems(2) t b(1) have all: "list_all parsed cs" "parsed (Node ty d f [])"
    by (auto simp: branchy_def split: fields.splits)
  then have "parsed (last cs)" using b(2) by (simp add: list_all_iff)
  from Cons.IH [OF b(4) this Cons.prems(3) c'(1)] have "parsed c'" .
  with all(1) have "list_all parsed (cs[k := c'])"
    by (auto simp: list_all_iff dest: set_update_subset_insert [THEN subsetD])
  with all(2) b(1) t c'(2) show ?case
    by (auto simp: branchy_def split: fields.splits)
qed

lemma ToMarkdown_CodeBlockNode [simp]: "ToMarkdown (CodeBlockNode ol b cl s) = ol @ b @ cl @ s"
  by (simp add: CodeBlockNode_def split: prod.splits)

lemma HeadingNode_ok:
  "1 \<le> l \<Longrightarrow> l \<le> 6 \<Longrightarrow>
   \<exists>h. HeadingNode l raw pfx t ls bs = Inr h \<and> ToMarkdown h = raw @ bs \<and> branchy h \<and>
       children h = [] \<and> \<not> dirty_self h \<and> parsed h"
  unfolding HeadingNode_def HEADING_TYPES_def
  by (auto split: prod.splits simp: branchy_def)

lemma ParagraphNode_ok:
  "\<exists>p cs. ParagraphNode raw bs = Inr p \<and> ToMarkdown p = raw @ bs \<and>
     p = Node Paragraph False (ParagraphFields \<lparr>p_raw_original = raw, p_block_suffix = bs\<rparr>) cs \<and>
     list_all leaf cs \<and> concat (map ToMarkdown cs) = raw \<and> parsed p"
proof -
  from parse_inlines_loop_inv [of 0 0 raw "[]"] obtain ns where
    ns: "parse_inlines raw = Inr ns" "concat (map ToMarkdown ns) = raw" "list_all leaf ns"
    unfolding parse_inlines_def by auto
  then show ?thesis
    unfolding ParagraphNode_def using leaves_clean [OF ns(3)] by simp
qed

text \<open>
  What the parser has made of the lines. The leading trivia and every block suffix are
  blank lines. A heading holds one line that the heading pattern matches, and its level
  and type are those of the run of \<open>#\<close>. A code block holds an opening line that the
  opening pattern matches, a closing line for the fence of the opening line, and between
  them lines of which none closes that fence. A paragraph holds a first line that is
  neither blank nor a heading, and after it lines that are not blank, no heading and no
  opening fence. The lines of a text are those that \<open>splitlines\<close> gives.
\<close>

definition blank_text :: "string \<Rightarrow> bool" where
  "blank_text t = list_all is_blank (splitlines t)"

fun classified :: "node \<Rightarrow> bool" where
  "classified (Node ty d f cs) =
     (case f of
        BaseNode \<Rightarrow> False
      | TextFields _ \<Rightarrow> True
      | LinkFields _ \<Rightarrow> True
      | CodeFields cf \<Rightarrow>
          ty = CodeBlock \<and>
          splitlines (opening_line_original cf) = [opening_line_original cf] \<and>
          splitlines (closing_line_original cf) = [closing_line_original cf] \<and>
          (case fence_open_match (opening_line_original cf) of
             None \<Rightarrow> False
           | Some fm \<Rightarrow>
               is_close (hd (group fm ''fence'')) (length (group fm ''fence''))
                 (closing_line_original cf) \<and>
               list_all (\<lambda>l. \<not> is_close (hd (group fm ''fence'')) (length (group fm ''fence'')) l)
                 (splitlines (code_body_original cf))) \<and>
          blank_text (block_suffix_original cf)
      | HeadingFields hf \<Rightarrow>
          splitlines (raw_line_original hf) = [raw_line_original hf] \<and>
          (case heading_match (raw_line_original hf) of
             None \<Rightarrow> False
           | Some hm \<Rightarrow>
               Level hf = length (group hm ''hashes'') \<and> HEADING_TYPES (Level hf) = Inr ty) \<and>
          blank_text (h_block_suffix hf) \<and> list_all classified cs
      | ParagraphFields pf \<Rightarrow>
          ty = Paragraph \<and>
          (case splitlines (p_raw_original pf) of
             [] \<Rightarrow> False
           | l # ls \<Rightarrow>
               \<not> is_blank l \<and> heading_match l = None \<and> list_all continues_paragraph ls) \<and>
          blank_text (p_block_suffix pf)
      | DocumentFields df \<Rightarrow> blank_text (leading_trivia df) \<and> list_all classified cs)"

lemma blank_text_takeWhile:
  "blank_text (concat (takeWhile is_blank (drop i (splitlines s))))"
  unfolding blank_text_def splitlines_takeWhile by (rule list_all_takeWhile)

lemma blank_text_lead: "blank_text (concat (takeWhile is_blank (splitlines s)))"
  using blank_text_takeWhile [of 0 s] by simp

lemma classified_CodeBlockNode:
  "splitlines ol = [ol] \<Longrightarrow> splitlines cl = [cl] \<Longrightarrow> fence_open_match ol = Some fm \<Longrightarrow>
   is_close (hd (group fm ''fence'')) (length (group fm ''fence'')) cl \<Longrightarrow>
   list_all (\<lambda>l. \<not> is_close (hd (group fm ''fence'')) (length (group fm ''fence'')) l)
     (splitlines b) \<Longrightarrow>
   blank_text s \<Longrightarrow> classified (CodeBlockNode ol b cl s)"
  by (simp add: CodeBlockNode_def split: prod.splits)

lemma classified_HeadingNode:
  "HeadingNode l raw pfx t ls bs = Inr h \<Longrightarrow> splitlines raw = [raw] \<Longrightarrow>
   heading_match raw = Some hm \<Longrightarrow> l = length (group hm ''hashes'') \<Longrightarrow> blank_text bs \<Longrightarrow>
   classified h"
  unfolding HeadingNode_def by (auto split: sum.splits prod.splits)

lemma classified_Paragraph:
  "splitlines raw = l # ls \<Longrightarrow> \<not> is_blank l \<Longrightarrow> heading_match l = None \<Longrightarrow>
   list_all continues_paragraph ls \<Longrightarrow> blank_text bs \<Longrightarrow>
   classified (Node Paragraph False (ParagraphFields \<lparr>p_raw_original = raw, p_block_suffix = bs\<rparr>) cs)"
  by simp

lemma append_classified_keeps:
  "spine p t \<Longrightarrow> classified t \<Longrightarrow> classified c \<Longrightarrow> append_parsed_at p c t = Inr t' \<Longrightarrow>
   classified t'"
proof (induction p arbitrary: t t')
  case Nil
  then show ?case
    by (cases t) (auto simp: append_parsed_at_def AppendChildParsed_def branchy_def split: fields.splits)
next
  case (Cons k q)
  obtain ty d f cs where t: "t = Node ty d f cs" by (cases t)
  from Cons.prems t have b: "branchy t" "cs \<noteq> []" "k = length cs - 1" "spine q (last cs)"
    by auto
  have nth: "cs ! k = last cs" using b by (simp add: last_conv_nth)
  have kl: "k < length cs" using b by simp
  from Cons.prems(4) t kl nth obtain c' where
    c': "append_parsed_at q c (last cs) = Inr c'" "t' = Node ty d f (cs[k := c'])"
    by (auto simp: append_parsed_at_def split: sum.splits)
  from Cons.prems(2) t b(1) have all: "list_all classified cs" "classified (Node ty d f [])"
    by (auto simp: branchy_def split: fields.splits)
  then have "classified (last cs)" using b(2) by (simp add: list_all_iff)
  from Cons.IH [OF b(4) this Cons.prems(3) c'(1)] have "classified c'" .
  with all(1) have "list_all classified (cs[k := c'])"
    by (auto simp: list_all_iff dest: set_update_subset_insert [THEN subsetD])
  with all(2) b(1) t c'(2) show ?case
    by (auto simp: branchy_def split: fields.splits)
qed

text \<open>
  On examples: the document parsed from a text with leading blank lines, a heading, a
  code block and a paragraph with a link is \<open>classified\<close> and \<open>parsed\<close>. A document
  whose leading trivia is not blank is not, nor is a paragraph that holds a heading
  line, a code block whose closing line is shorter than its fence, or a code block with
  a closing line inside its body.
\<close>

lemma classified_examples:
  "(case FromString ''\<newline># T\<newline>````\<newline>code\<newline>````\<newline>\<newline>see [a](b)\<newline>tail'' of
      Inl e \<Rightarrow> False | Inr d \<Rightarrow> classified d \<and> parsed d)"
  "\<not> classified
       (Node Root False (DocumentFields \<lparr>leading_trivia = ''x\<newline>'', source_path = None\<rparr>) [])"
  "\<not> classified
       (Node Root False (DocumentFields \<lparr>leading_trivia = [], source_path = None\<rparr>)
          [Node Paragraph False
             (ParagraphFields \<lparr>p_raw_original = ''a\<newline># T\<newline>'', p_block_suffix = []\<rparr>)
             [TextNode ''a\<newline># T\<newline>'']])"
  "\<not> classified (CodeBlockNode ''````\<newline>'' ''x\<newline>'' ''```\<newline>'' [])"
  "\<not> classified (CodeBlockNode ''```\<newline>'' ''x\<newline>```\<newline>y\<newline>'' ''```\<newline>'' [])"
  by code_simp+

text \<open>
  The invariant of the main loop of \<open>Parse\<close>: the tree built so far, serialised, followed
  by the lines not yet read is the whole text; the stack holds the nodes on the way to
  its top, which lies on the spine of the tree; the levels go with the stack and start
  with the level 0 of the document; the document itself keeps its type, flag and fields;
  the lines are those of the text, the tree holds them by their kind, and the line the
  next turn starts with is not blank.
\<close>

definition parse_inv :: "string list \<Rightarrow> string \<Rightarrow> node \<Rightarrow> parse_state \<Rightarrow> bool" where
  "parse_inv lines txt r0 st =
     (idx st \<le> length lines \<and>
      ToMarkdown (tree st) @ concat (drop (idx st) lines) = txt \<and>
      stack st = refs (last (stack st)) \<and>
      spine (last (stack st)) (tree st) \<and>
      length (stack_levels st) = length (stack st) \<and>
      hd (stack_levels st) = 0 \<and>
      Type (tree st) = Type r0 \<and> dirty_self (tree st) = dirty_self r0 \<and>
      flds (tree st) = flds r0 \<and> parsed (tree st) \<and>
      splitlines txt = lines \<and> classified (tree st) \<and>
      (idx st < length lines \<longrightarrow> \<not> is_blank (lines ! idx st)))"

lemma is_close_nonempty: "is_close c n l \<Longrightarrow> 1 \<le> n \<Longrightarrow> l \<noteq> []"
  by (drule is_close_shape) auto

lemma parse_inv_stack:
  assumes "parse_inv lines txt r0 st"
  shows "stack st \<noteq> []" "spine (last (stack st)) (tree st)"
    "stack st = refs (last (stack st))"
    "length (stack_levels st) = Suc (length (last (stack st)))" "hd (stack_levels st) = 0"
proof -
  from assms show e: "stack st = refs (last (stack st))" by (simp add: parse_inv_def)
  from refs_nonempty [of "last (stack st)"] e show "stack st \<noteq> []" by metis
  from assms show "spine (last (stack st)) (tree st)" by (simp add: parse_inv_def)
  from refs_length [of "last (stack st)"] e have "length (stack st) = Suc (length (last (stack st)))"
    by metis
  with assms show "length (stack_levels st) = Suc (length (last (stack st)))"
    by (simp add: parse_inv_def)
  from assms show "hd (stack_levels st) = 0" by (simp add: parse_inv_def)
qed

lemma parse_inv_parsed: "parse_inv lines txt r0 st \<Longrightarrow> parsed (tree st)"
  by (simp add: parse_inv_def)

lemma parse_inv_lines:
  assumes "parse_inv lines txt r0 st"
  shows "lines = splitlines txt" "classified (tree st)"
    "idx st < length lines \<Longrightarrow> \<not> is_blank (lines ! idx st)"
  using assms by (simp_all add: parse_inv_def)

text \<open>
  A state that differs from one under the invariant in the tree and in the index only,
  with what these two have to satisfy.
\<close>

lemma parse_inv_step:
  assumes inv: "parse_inv lines txt r0 st"
    and tx: "ToMarkdown t' @ concat (drop j lines) = txt" and j: "j \<le> length lines"
    and sp: "spine (last (stack st)) t'"
    and ty: "Type t' = Type (tree st)" "dirty_self t' = dirty_self (tree st)"
      "flds t' = flds (tree st)"
    and pa: "parsed t'" and cl: "classified t'"
    and nb: "j < length lines \<Longrightarrow> \<not> is_blank (lines ! j)"
  shows "parse_inv lines txt r0 (st\<lparr>tree := t', idx := j\<rparr>)"
  using assms unfolding parse_inv_def by simp

lemma fence_part_inv:
  assumes inv: "parse_inv lines txt r0 st" and i: "idx st < length lines"
  shows "(\<exists>st'. fence_part lines st = Continue (Inr st') \<and> parse_inv lines txt r0 st') \<or>
         fence_part lines st = FallThrough (idx st) (lines ! idx st)"
proof (cases "fence_open_match (lines ! idx st)")
  case None
  then show ?thesis by (simp add: fence_part_def Let_def)
next
  case (Some fm)
  from fence_open_shape [OF Some] obtain k c where
    f: "group fm ''fence'' = replicate k c" "3 \<le> k" by blast
  then obtain k' where k': "k = Suc k'" by (cases k) auto
  have fc: "group fm ''fence'' = c # replicate k' c" using f k' by simp
  have fl: "length (group fm ''fence'') = k" using f by simp
  have hc: "hd (group fm ''fence'') = c" using fc by simp
  obtain b cl j where sc: "scan_fence lines c k (idx st + 1) [] = (b, cl, j)"
    by (cases "scan_fence lines c k (idx st + 1) []")
  from scan_fence_concat [OF sc] i have
    scc: "concat b @ cl @ concat (drop j lines) = concat (drop (idx st + 1) lines)" "j \<le> length lines"
    by auto
  show ?thesis
  proof (cases "cl = []")
    case True
    have "\<forall>m. idx st + 1 \<le> m \<and> m < length lines \<and> is_close c k (lines ! m) \<longrightarrow> lines ! m \<noteq> []"
    proof (intro allI impI)
      fix m assume "idx st + 1 \<le> m \<and> m < length lines \<and> is_close c k (lines ! m)"
      then have "is_close c k (lines ! m)" by simp
      from is_close_nonempty [OF this] f(2) show "lines ! m \<noteq> []" by simp
    qed
    from scan_fence_none [OF sc _ this True] i
    have "j = length lines" "b = drop (idx st + 1) lines" by auto
    then have "j - length b - 1 = idx st" using i by simp
    then show ?thesis
      using Some fc fl sc True by (simp add: fence_part_def Let_def)
  next
    case False
    obtain bs i3 where br: "blank_run lines j [] = (bs, i3)" by (cases "blank_run lines j []")
    from blank_run_concat [OF br scc(2)] have
      brc: "bs @ concat (drop i3 lines) = concat (drop j lines)" "i3 \<le> length lines" by auto
    from parse_inv_stack [OF inv] have sp: "spine (last (stack st)) (tree st)" and ne: "stack st \<noteq> []"
      by blast+
    let ?c = "CodeBlockNode (lines ! idx st) (concat b) cl bs"
    from append_spine [OF sp, of ?c] obtain t' where
      t': "append_parsed_at (last (stack st)) ?c (tree st) = Inr t'"
        "ToMarkdown t' = ToMarkdown (tree st) @ ToMarkdown ?c" "spine (last (stack st)) t'"
        "Type t' = Type (tree st)" "dirty_self t' = dirty_self (tree st)" "flds t' = flds (tree st)"
      by blast
    let ?st = "st\<lparr>tree := t', idx := i3\<rparr>"
    have fp: "fence_part lines st = Continue (Inr ?st)"
      using Some fc fl sc False br ne t'(1) by (simp add: fence_part_def Let_def)
    have "ToMarkdown t' @ concat (drop i3 lines) =
          ToMarkdown (tree st) @ lines ! idx st @ concat b @ cl @ bs @ concat (drop i3 lines)"
      using t'(2) by simp
    also have "\<dots> = ToMarkdown (tree st) @ lines ! idx st @ concat (drop (idx st + 1) lines)"
      using brc(1) scc(1) by simp
    also have "\<dots> = ToMarkdown (tree st) @ concat (drop (idx st) lines)"
      using drop_step [OF i] by simp
    finally have tx: "ToMarkdown t' @ concat (drop i3 lines) = txt"
      using inv unfolding parse_inv_def by simp
    have pt: "parsed t'"
      using append_parsed_keeps [OF sp parse_inv_parsed [OF inv] _ t'(1)] by simp
    note L = parse_inv_lines(1) [OF inv]
    from scan_fence_found [OF sc False] obtain m where
      m: "b = take m (drop (idx st + 1) lines)"
        "list_all (\<lambda>l. \<not> is_close c k l) (take m (drop (idx st + 1) lines))"
        "idx st + 1 + m < length lines" "cl = lines ! (idx st + 1 + m)" "is_close c k cl"
      by auto
    have o1: "splitlines (lines ! idx st) = [lines ! idx st]"
      using i splitlines_nth [of "idx st" "txt"] unfolding L by simp
    have o2: "splitlines cl = [cl]"
      using m(3,4) splitlines_nth [of "idx st + 1 + m" "txt"] unfolding L by simp
    have o3: "splitlines (concat b) = b"
      unfolding m(1) L by (rule splitlines_sub)
    have o4: "blank_text bs"
      using br blank_text_takeWhile [of j "txt"] unfolding L by (simp add: blank_run_eq)
    have "classified ?c"
      using o1 o2 Some m(5) m(2) o4 unfolding hc fl o3 m(1) [symmetric]
      by (intro classified_CodeBlockNode [where fm = fm]) (simp_all add: hc fl o3)
    then have ct: "classified t'"
      using append_classified_keeps [OF sp parse_inv_lines(2) [OF inv] _ t'(1)] by simp
    have "parse_inv lines txt r0 ?st"
      using tx brc(2) t'(3-6) pt ct blank_run_stops [OF br]
      by (intro parse_inv_step [OF inv])
    with fp show ?thesis by blast
  qed
qed

lemma heading_part_inv:
  assumes inv: "parse_inv lines txt r0 st" and i: "idx st < length lines"
    and hm: "heading_match (lines ! idx st) = Some hm"
  shows "\<exists>st'. heading_part lines st (idx st) (lines ! idx st) = Some (Inr st') \<and>
           parse_inv lines txt r0 st'"
proof -
  let ?line = "lines ! idx st"
  let ?level = "length (group hm ''hashes'')"
  let ?pfx = "group hm ''indent'' @ group hm ''hashes'' @ group hm ''space''"
  let ?sfx = "group hm ''trailing'' @ group hm ''eol''"
  from heading_level [OF hm] have lv: "1 \<le> ?level" "?level \<le> 6" by auto
  obtain bs i2 where br: "blank_run lines (idx st + 1) [] = (bs, i2)"
    by (cases "blank_run lines (idx st + 1) []")
  from blank_run_concat [OF br] i have
    brc: "bs @ concat (drop i2 lines) = concat (drop (idx st + 1) lines)" "i2 \<le> length lines" by auto
  define tp where "tp = last (stack st)"
  from parse_inv_stack [OF inv] have st: "stack st = refs tp" "spine tp (tree st)"
    "length (stack_levels st) = Suc (length tp)" "hd (stack_levels st) = 0"
    unfolding tp_def by blast+
  from pop_open_take [of "stack st" "stack_levels st" ?level] st obtain n where
    n: "pop_open (stack st) (stack_levels st) ?level = Inr (take n (stack st), take n (stack_levels st))"
      "n \<le> length (stack_levels st)"
      "\<forall>j. n \<le> j \<and> j < length (stack_levels st) \<longrightarrow> ?level \<le> stack_levels st ! j"
    by auto
  have n1: "1 \<le> n"
  proof (rule ccontr)
    assume "\<not> 1 \<le> n"
    then have "n = 0" by simp
    with n(3) st(3) have "?level \<le> stack_levels st ! 0" by simp
    moreover have "stack_levels st ! 0 = hd (stack_levels st)"
      using st(3) by (cases "stack_levels st") auto
    ultimately show False using lv st(4) by simp
  qed
  define parent where "parent = take (n - 1) tp"
  have stk: "take n (stack st) = refs parent"
    using refs_take [OF n1, of tp] n(2) st(1,3) by (simp add: parent_def)
  have sp: "spine parent (tree st)" using st(2) spine_take by (simp add: parent_def)
  from HeadingNode_ok [OF lv, of ?line ?pfx "group hm ''title''" ?sfx bs] obtain h where
    h: "HeadingNode ?level ?line ?pfx (group hm ''title'') ?sfx bs = Inr h"
      "ToMarkdown h = ?line @ bs" "branchy h" "parsed h" by blast
  from append_spine [OF sp, of h] h(3) obtain t' pn where
    t': "append_parsed_at parent h (tree st) = Inr t'" "node_at parent (tree st) = Inr pn"
      "ToMarkdown t' = ToMarkdown (tree st) @ ToMarkdown h"
      "spine (parent @ [length (children pn)]) t'"
      "Type t' = Type (tree st)" "dirty_self t' = dirty_self (tree st)" "flds t' = flds (tree st)"
    by blast
  let ?st = "\<lparr>tree = t', stack = refs parent @ [parent @ [length (children pn)]],
               stack_levels = take n (stack_levels st) @ [?level], idx = i2\<rparr>"
  have hp: "heading_part lines st (idx st) ?line = Some (Inr ?st)"
    using hm br n(1) stk h(1) t'(1,2) by (simp add: heading_part_def Let_def)
  have "ToMarkdown t' @ concat (drop i2 lines) =
        ToMarkdown (tree st) @ ?line @ bs @ concat (drop i2 lines)"
    using t'(3) h(2) by simp
  also have "\<dots> = ToMarkdown (tree st) @ concat (drop (idx st) lines)"
    using brc(1) drop_step [OF i] by simp
  finally have tx: "ToMarkdown t' @ concat (drop i2 lines) = txt"
    using inv unfolding parse_inv_def by simp
  have lp: "length parent = n - 1" using n(2) st(3) by (simp add: parent_def)
  have hd: "hd (take n (stack_levels st) @ [?level]) = 0"
    using n1 st(3,4) by (cases "stack_levels st"; cases n) auto
  have pt: "parsed t'"
    using append_parsed_keeps [OF sp parse_inv_parsed [OF inv] h(4) t'(1)] .
  note L = parse_inv_lines(1) [OF inv]
  have o1: "splitlines ?line = [?line]"
    using i splitlines_nth [of "idx st" "txt"] unfolding L by simp
  have o2: "blank_text bs"
    using br blank_text_takeWhile [of "idx st + 1" "txt"] unfolding L by (simp add: blank_run_eq)
  have "classified h" by (rule classified_HeadingNode [OF h(1) o1 hm refl o2])
  from append_classified_keeps [OF sp parse_inv_lines(2) [OF inv] this t'(1)]
  have ct: "classified t'" .
  have nb: "i2 < length lines \<longrightarrow> \<not> is_blank (lines ! i2)"
    using blank_run_stops [OF br] by simp
  have "parse_inv lines txt r0 ?st"
    using tx brc(2) t'(4-7) inv lp n1 n(2) hd pt ct nb
    unfolding parse_inv_def by (simp add: refs_snoc [symmetric])
  with hp show ?thesis by blast
qed

lemma paragraph_part_inv:
  assumes inv: "parse_inv lines txt r0 st" and i: "idx st < length lines"
    and hn: "heading_match (lines ! idx st) = None"
  shows "\<exists>st'. paragraph_part lines st (idx st) (lines ! idx st) = Inr st' \<and>
           parse_inv lines txt r0 st'"
proof -
  obtain pl i2 where pl: "para_loop lines (idx st + 1) [lines ! idx st] = (pl, i2)"
    by (cases "para_loop lines (idx st + 1) [lines ! idx st]")
  from para_loop_concat [OF pl] i have
    plc: "concat pl @ concat (drop i2 lines) = lines ! idx st @ concat (drop (idx st + 1) lines)"
      "i2 \<le> length lines" by auto
  obtain bs i3 where br: "blank_run lines i2 [] = (bs, i3)" by (cases "blank_run lines i2 []")
  from blank_run_concat [OF br plc(2)] have
    brc: "bs @ concat (drop i3 lines) = concat (drop i2 lines)" "i3 \<le> length lines" by auto
  from parse_inv_stack [OF inv] have sp: "spine (last (stack st)) (tree st)" and ne: "stack st \<noteq> []"
    by blast+
  from ParagraphNode_ok [of "concat pl" bs] obtain p cs where
    p: "ParagraphNode (concat pl) bs = Inr p" "ToMarkdown p = concat pl @ bs" "parsed p"
      "p = Node Paragraph False (ParagraphFields \<lparr>p_raw_original = concat pl, p_block_suffix = bs\<rparr>) cs"
    by blast
  from append_spine [OF sp, of p] obtain t' where
    t': "append_parsed_at (last (stack st)) p (tree st) = Inr t'"
      "ToMarkdown t' = ToMarkdown (tree st) @ ToMarkdown p" "spine (last (stack st)) t'"
      "Type t' = Type (tree st)" "dirty_self t' = dirty_self (tree st)" "flds t' = flds (tree st)"
    by blast
  let ?st = "st\<lparr>tree := t', idx := i3\<rparr>"
  have pp: "paragraph_part lines st (idx st) (lines ! idx st) = Inr ?st"
    using pl br ne p(1) t'(1) by (simp add: paragraph_part_def)
  have "ToMarkdown t' @ concat (drop i3 lines) =
        ToMarkdown (tree st) @ concat pl @ bs @ concat (drop i3 lines)"
    using t'(2) p(2) by simp
  also have "\<dots> = ToMarkdown (tree st) @ concat (drop (idx st) lines)"
    using brc(1) plc(1) drop_step [OF i] by simp
  finally have tx: "ToMarkdown t' @ concat (drop i3 lines) = txt"
    using inv unfolding parse_inv_def by simp
  have pt: "parsed t'"
    using append_parsed_keeps [OF sp parse_inv_parsed [OF inv] p(3) t'(1)] .
  note L = parse_inv_lines(1) [OF inv]
  let ?tw = "takeWhile continues_paragraph (drop (idx st + 1) lines)"
  have ple: "pl = lines ! idx st # ?tw" using pl by (simp add: para_loop_eq)
  have "lines ! idx st # ?tw = take (Suc (length ?tw)) (drop (idx st) lines)"
    using i by (simp flip: Cons_nth_drop_Suc add: takeWhile_eq_take [symmetric])
  then have o1: "splitlines (concat pl) = lines ! idx st # ?tw"
    using splitlines_sub [of "Suc (length ?tw)" "idx st" "txt"] unfolding ple L by simp
  have o2: "blank_text bs"
    using br blank_text_takeWhile [of i2 "txt"] unfolding L by (simp add: blank_run_eq)
  have "classified p"
    unfolding p(4)
    by (rule classified_Paragraph [OF o1 parse_inv_lines(3) [OF inv i] hn list_all_takeWhile o2])
  from append_classified_keeps [OF sp parse_inv_lines(2) [OF inv] this t'(1)]
  have ct: "classified t'" .
  have "parse_inv lines txt r0 ?st"
    using tx brc(2) t'(3-6) pt ct blank_run_stops [OF br]
    by (intro parse_inv_step [OF inv])
  with pp show ?thesis by blast
qed

lemma parse_block_inv:
  assumes inv: "parse_inv lines txt r0 st" and i: "idx st < length lines"
  shows "\<exists>st'. parse_block lines st = Inr st' \<and> parse_inv lines txt r0 st'"
proof -
  from fence_part_inv [OF inv i] show ?thesis
  proof
    assume "\<exists>st'. fence_part lines st = Continue (Inr st') \<and> parse_inv lines txt r0 st'"
    then show ?thesis by (auto simp: parse_block_def)
  next
    assume ft: "fence_part lines st = FallThrough (idx st) (lines ! idx st)"
    show ?thesis
    proof (cases "heading_match (lines ! idx st)")
      case None
      then have "heading_part lines st (idx st) (lines ! idx st) = None"
        by (simp add: heading_part_def)
      with ft paragraph_part_inv [OF inv i None] show ?thesis by (simp add: parse_block_def)
    next
      case (Some hm)
      from heading_part_inv [OF inv i Some] ft show ?thesis by (auto simp: parse_block_def)
    qed
  qed
qed

lemma parse_loop_inv:
  "parse_inv lines txt r0 st \<Longrightarrow>
   \<exists>st'. parse_loop lines st = Inr st' \<and> parse_inv lines txt r0 st' \<and> idx st' = length lines"
proof (induction lines st rule: parse_loop.induct)
  case (1 lines st)
  show ?case
  proof (cases "idx st < length lines")
    case False
    with "1.prems" have "idx st = length lines" by (simp add: parse_inv_def)
    with "1.prems" show ?thesis by (subst parse_loop.simps) simp
  next
    case True
    from parse_block_inv [OF "1.prems" True] obtain st1 where
      s: "parse_block lines st = Inr st1" "parse_inv lines txt r0 st1" by blast
    from "1.IH" [OF True s(1) s(2)] s(1) True show ?thesis
      by (subst parse_loop.simps) simp
  qed
qed

lemma Parse_start_eq:
  "Parse_start lines self f =
     \<lparr>tree = Node (Type self) (dirty_self self)
               (DocumentFields (f\<lparr>leading_trivia := concat (takeWhile is_blank lines)\<rparr>)) [],
      stack = [[]], stack_levels = [0], idx = length (takeWhile is_blank lines)\<rparr>"
  by (simp add: Parse_start_def blank_run_eq)

lemma Parse_start_inv:
  "parse_inv (splitlines s) s
     (Node (Type self) (dirty_self self)
        (DocumentFields (f\<lparr>leading_trivia := concat (takeWhile is_blank (splitlines s))\<rparr>)) [])
     (Parse_start (splitlines s) self f)"
proof -
  let ?lines = "splitlines s"
  let ?tw = "takeWhile is_blank ?lines"
  have br: "blank_run ?lines 0 [] = (concat ?tw, length ?tw)" by (simp add: blank_run_eq)
  from blank_run_concat [OF br] have
    c: "concat ?tw @ concat (drop (length ?tw) ?lines) = s" "length ?tw \<le> length ?lines"
    by (simp_all add: splitlines_concat)
  have nb: "length ?tw < length ?lines \<longrightarrow> \<not> is_blank (?lines ! length ?tw)"
    using blank_run_stops [OF br] by simp
  show ?thesis
    unfolding Parse_start_eq parse_inv_def using c nb blank_text_lead [of s]
    by (simp add: refs_def branchy_def)
qed

lemma Parse_ok:
  assumes "flds self = DocumentFields f"
  shows "\<exists>d lead. Parse markdown self = Inr d \<and> ToMarkdown d = markdown \<and>
           Type d = Type self \<and> dirty_self d = dirty_self self \<and>
           flds d = DocumentFields (f\<lparr>leading_trivia := lead\<rparr>) \<and> parsed d \<and>
           classified d \<and> lead = concat (takeWhile is_blank (splitlines markdown))"
proof -
  let ?lines = "splitlines markdown"
  let ?lead = "concat (takeWhile is_blank ?lines)"
  from parse_loop_inv [OF Parse_start_inv [of markdown self f]] obtain st where
    st: "parse_loop ?lines (Parse_start ?lines self f) = Inr st"
      "parse_inv ?lines markdown
         (Node (Type self) (dirty_self self) (DocumentFields (f\<lparr>leading_trivia := ?lead\<rparr>)) []) st"
      "idx st = length ?lines" by blast
  from st(2,3) have "ToMarkdown (tree st) = markdown"
    unfolding parse_inv_def by simp
  with st show ?thesis
    using assms unfolding Parse_def parse_inv_def
    by (intro exI [of _ "tree st"] exI [of _ ?lead]) (simp add: Let_def)
qed

text \<open>
  C1. Round trip: for every text \<open>s\<close>, building a document from \<open>s\<close> succeeds and
  serialising it, unchanged, returns \<open>s\<close>: the leading trivia followed by the serialised
  top-level children is the input.
\<close>

theorem round_trip:
  "\<exists>d f. MarkdownDocument s sp = Inr d \<and> ToMarkdown d = s \<and> flds d = DocumentFields f \<and>
         leading_trivia f @ concat (map ToMarkdown (children d)) = s"
proof (cases "s = []")
  case True
  then show ?thesis by (simp add: MarkdownDocument_def)
next
  case False
  let ?self = "Node Root False (DocumentFields \<lparr>leading_trivia = [], source_path = sp\<rparr>) []"
  from Parse_ok [of ?self _ s] obtain d lead where
    d: "Parse s ?self = Inr d" "ToMarkdown d = s"
      "flds d = DocumentFields (\<lparr>leading_trivia = [], source_path = sp\<rparr>\<lparr>leading_trivia := lead\<rparr>)"
    by auto
  from d(2,3) have "leading_trivia (\<lparr>leading_trivia = [], source_path = sp\<rparr>\<lparr>leading_trivia := lead\<rparr>)
                     @ concat (map ToMarkdown (children d)) = s"
    by (cases d) simp
  with d False show ?thesis by (simp add: MarkdownDocument_def)
qed

theorem round_trip_witness:
  "\<exists>d. MarkdownDocument ''\<newline># Title \<newline>\<newline>see [a](b)\<newline>```py\<newline>x = 1\<newline>```\<newline>'' None = Inr d \<and>
       ToMarkdown d = ''\<newline># Title \<newline>\<newline>see [a](b)\<newline>```py\<newline>x = 1\<newline>```\<newline>''"
  using round_trip [of "''\<newline># Title \<newline>\<newline>see [a](b)\<newline>```py\<newline>x = 1\<newline>```\<newline>''" None]
  by blast

text \<open>
  C4. The parser is total and sorts every line. For every text the recursion of every
  loop is proved to end (each definition above carries its termination proof), and
  \<open>Parse\<close> and the constructor return a document and no error, also when an
  unterminated fence sets the line index back. The document returned holds the text: it
  serialises to the text it was parsed from; its leading trivia is the longest run of
  blank lines the text starts with; it is a tree of clean nodes as the parser makes them
  (\<open>parsed\<close>); and each of its nodes holds lines of the kind the node stands for
  (\<open>classified\<close>: blank lines in the leading trivia and in every block suffix, a heading
  line in a heading, an opening line, body lines and a closing line in a code block,
  paragraph lines in a paragraph). The main loop is left with every line read.
\<close>

theorem parser_total:
  "(\<exists>d. MarkdownDocument s sp = Inr d \<and> ToMarkdown d = s \<and> parsed d \<and> classified d \<and>
        Type d = Root \<and> \<not> dirty_self d \<and>
        flds d = DocumentFields \<lparr>leading_trivia = concat (takeWhile is_blank (splitlines s)),
                                 source_path = sp\<rparr>) \<and>
   (\<exists>d. Parse s (Node ty dirty (DocumentFields f) cs) = Inr d \<and> ToMarkdown d = s \<and>
        parsed d \<and> classified d \<and> Type d = ty \<and> dirty_self d = dirty \<and>
        flds d = DocumentFields (f\<lparr>leading_trivia := concat (takeWhile is_blank (splitlines s))\<rparr>)) \<and>
   (\<exists>st. parse_loop (splitlines s) (Parse_start (splitlines s) self f) = Inr st \<and>
         idx st = length (splitlines s) \<and> ToMarkdown (tree st) = s \<and>
         parsed (tree st) \<and> classified (tree st))"
proof (intro conjI)
  let ?self = "Node Root False (DocumentFields \<lparr>leading_trivia = [], source_path = sp\<rparr>) []"
  show "\<exists>d. MarkdownDocument s sp = Inr d \<and> ToMarkdown d = s \<and> parsed d \<and> classified d \<and>
        Type d = Root \<and> \<not> dirty_self d \<and>
        flds d = DocumentFields \<lparr>leading_trivia = concat (takeWhile is_blank (splitlines s)),
                                 source_path = sp\<rparr>"
  proof (cases "s = []")
    case True
    then show ?thesis
      by (simp add: MarkdownDocument_def blank_text_def splitlines_def)
  next
    case False
    from Parse_ok [of ?self "\<lparr>leading_trivia = [], source_path = sp\<rparr>" s] obtain d where
      "Parse s ?self = Inr d" "ToMarkdown d = s" "parsed d" "classified d"
      "Type d = Root" "\<not> dirty_self d"
      "flds d = DocumentFields \<lparr>leading_trivia = concat (takeWhile is_blank (splitlines s)),
                                 source_path = sp\<rparr>"
      by auto
    with False show ?thesis by (simp add: MarkdownDocument_def Let_def)
  qed
  from Parse_ok [of "Node ty dirty (DocumentFields f) cs" f s]
  show "\<exists>d. Parse s (Node ty dirty (DocumentFields f) cs) = Inr d \<and> ToMarkdown d = s \<and>
        parsed d \<and> classified d \<and> Type d = ty \<and> dirty_self d = dirty \<and>
        flds d = DocumentFields (f\<lparr>leading_trivia := concat (takeWhile is_blank (splitlines s))\<rparr>)"
    by auto
  from parse_loop_inv [OF Parse_start_inv [of s self f]] obtain st where
    st: "parse_loop (splitlines s) (Parse_start (splitlines s) self f) = Inr st"
      "parse_inv (splitlines s) s
         (Node (Type self) (dirty_self self)
            (DocumentFields (f\<lparr>leading_trivia := concat (takeWhile is_blank (splitlines s))\<rparr>)) []) st"
      "idx st = length (splitlines s)" by blast
  from st(2,3) have "ToMarkdown (tree st) = s" "parsed (tree st)" "classified (tree st)"
    unfolding parse_inv_def by simp_all
  with st(1,3)
  show "\<exists>st. parse_loop (splitlines s) (Parse_start (splitlines s) self f) = Inr st \<and>
         idx st = length (splitlines s) \<and> ToMarkdown (tree st) = s \<and>
         parsed (tree st) \<and> classified (tree st)" by blast
qed

theorem parser_total_witness:
  "(\<exists>d. MarkdownDocument ''\<newline># T\<newline>````\<newline>code\<newline>```\<newline>'' None = Inr d \<and>
        ToMarkdown d = ''\<newline># T\<newline>````\<newline>code\<newline>```\<newline>'' \<and> parsed d \<and> classified d \<and>
        flds d = DocumentFields \<lparr>leading_trivia = ''\<newline>'', source_path = None\<rparr>) \<and>
   (\<exists>st. parse_loop (splitlines ''\<newline># T\<newline>````\<newline>code\<newline>```\<newline>'')
           (Parse_start (splitlines ''\<newline># T\<newline>````\<newline>code\<newline>```\<newline>'')
              (Node Root False (DocumentFields \<lparr>leading_trivia = [], source_path = None\<rparr>) [])
              \<lparr>leading_trivia = [], source_path = None\<rparr>) = Inr st \<and> idx st = 5 \<and>
         ToMarkdown (tree st) = ''\<newline># T\<newline>````\<newline>code\<newline>```\<newline>'' \<and> classified (tree st))"
proof -
  have l: "length (splitlines ''\<newline># T\<newline>````\<newline>code\<newline>```\<newline>'') = 5" by code_simp
  have b: "concat (takeWhile is_blank (splitlines ''\<newline># T\<newline>````\<newline>code\<newline>```\<newline>'')) = ''\<newline>''"
    by code_simp
  from parser_total [of "''\<newline># T\<newline>````\<newline>code\<newline>```\<newline>''" None Root False
      "\<lparr>leading_trivia = [], source_path = None\<rparr>" "[]"
      "Node Root False (DocumentFields \<lparr>leading_trivia = [], source_path = None\<rparr>) []"]
  show ?thesis unfolding l b by blast
qed

section \<open>Heading nesting\<close>

text \<open>The outline of a tree: for every node its type, its Text and its children's outlines.\<close>

datatype outline_tree = Outline NodeType string "outline_tree list"

fun outline :: "node \<Rightarrow> outline_tree" where
  "outline (Node ty d f cs) = Outline ty (get_Text (Node ty d f cs)) (map outline cs)"

lemma nesting_example:
  "map_sum id outline (FromString ''# A\<newline>## B\<newline>### C\<newline>## D\<newline>'') =
     Inr (Outline Root []
       [Outline Heading1 ''A''
          [Outline Heading2 ''B'' [Outline Heading3 ''C'' []],
           Outline Heading2 ''D'' []]])"
  by code_simp

text \<open>
  C5. Heading nesting: the text of four heading lines A (level 1), B (2), C (3), D (2)
  parses to the document with the one child A, whose children are B and D in this
  order; C is the one child of B, and D has no children. On a heading line the stack of
  open headings is popped while its top has a level that is not below the new level: what
  is left ends with an entry of a strictly lower level, and the new heading is attached as
  the last child of that entry and pushed.
\<close>

theorem heading_nesting:
  "(\<exists>d. FromString ''# A\<newline>## B\<newline>### C\<newline>## D\<newline>'' = Inr d \<and>
        outline d =
          Outline Root []
            [Outline Heading1 ''A''
               [Outline Heading2 ''B'' [Outline Heading3 ''C'' []],
                Outline Heading2 ''D'' []]]) \<and>
   (length stk = length lvls \<longrightarrow>
     (\<exists>n. pop_open stk lvls level = Inr (take n stk, take n lvls) \<and> n \<le> length lvls \<and>
          (n = 0 \<or> lvls ! (n - 1) < level) \<and>
          (\<forall>j. n \<le> j \<and> j < length lvls \<longrightarrow> level \<le> lvls ! j))) \<and>
   (heading_part lines st i line = Some (Inr st') \<longrightarrow>
     (\<exists>hm stk' lvls' pn h.
        heading_match line = Some hm \<and>
        pop_open (stack st) (stack_levels st) (length (group hm ''hashes'')) = Inr (stk', lvls') \<and>
        node_at (last stk') (tree st) = Inr pn \<and>
        HeadingNode (length (group hm ''hashes'')) line
          (group hm ''indent'' @ group hm ''hashes'' @ group hm ''space'') (group hm ''title'')
          (group hm ''trailing'' @ group hm ''eol'') (fst (blank_run lines (i + 1) [])) = Inr h \<and>
        append_parsed_at (last stk') h (tree st) = Inr (tree st') \<and>
        stack st' = stk' @ [last stk' @ [length (children pn)]] \<and>
        stack_levels st' = lvls' @ [length (group hm ''hashes'')]))"
proof (intro conjI impI)
  from nesting_example
  show "\<exists>d. FromString ''# A\<newline>## B\<newline>### C\<newline>## D\<newline>'' = Inr d \<and>
        outline d =
          Outline Root []
            [Outline Heading1 ''A''
               [Outline Heading2 ''B'' [Outline Heading3 ''C'' []],
                Outline Heading2 ''D'' []]]"
    by (cases "FromString ''# A\<newline>## B\<newline>### C\<newline>## D\<newline>''") auto
next
  assume "length stk = length lvls"
  from pop_open_take [OF this]
  show "\<exists>n. pop_open stk lvls level = Inr (take n stk, take n lvls) \<and> n \<le> length lvls \<and>
          (n = 0 \<or> lvls ! (n - 1) < level) \<and>
          (\<forall>j. n \<le> j \<and> j < length lvls \<longrightarrow> level \<le> lvls ! j)" .
next
  assume "heading_part lines st i line = Some (Inr st')"
  then show "\<exists>hm stk' lvls' pn h.
        heading_match line = Some hm \<and>
        pop_open (stack st) (stack_levels st) (length (group hm ''hashes'')) = Inr (stk', lvls') \<and>
        node_at (last stk') (tree st) = Inr pn \<and>
        HeadingNode (length (group hm ''hashes'')) line
          (group hm ''indent'' @ group hm ''hashes'' @ group hm ''space'') (group hm ''title'')
          (group hm ''trailing'' @ group hm ''eol'') (fst (blank_run lines (i + 1) [])) = Inr h \<and>
        append_parsed_at (last stk') h (tree st) = Inr (tree st') \<and>
        stack st' = stk' @ [last stk' @ [length (children pn)]] \<and>
        stack_levels st' = lvls' @ [length (group hm ''hashes'')]"
    unfolding heading_part_def Let_def
    by (auto split: option.splits prod.splits sum.splits if_splits)
qed

theorem heading_nesting_witness:
  "length [[], [0], [0, 0], [0, 0, 0::nat]] = length [0, 1, 2, 3::nat] \<and>
   (\<exists>n. pop_open [[], [0], [0, 0], [0, 0, 0]] [0, 1, 2, 3] 2 =
          Inr (take n [[], [0], [0, 0], [0, 0, 0]], take n [0, 1, 2, 3]) \<and>
        n \<le> 4 \<and> (n = 0 \<or> [0, 1, 2, 3::nat] ! (n - 1) < 2)) \<and>
   heading_part [''# A\<newline>'', ''## B\<newline>'']
      \<lparr>tree = Node Root False (DocumentFields \<lparr>leading_trivia = [], source_path = None\<rparr>) [],
       stack = [[]], stack_levels = [0], idx = 0\<rparr> 0 ''# A\<newline>'' =
     Some (Inr \<lparr>tree = Node Root False (DocumentFields \<lparr>leading_trivia = [], source_path = None\<rparr>)
                   [Node Heading1 False
                      (HeadingFields \<lparr>Level = 1, raw_line_original = ''# A\<newline>'', prefix = ''# '',
                         title_leading = [], title_core = ''A'', title_trailing = [],
                         line_suffix = ''\<newline>'', h_block_suffix = []\<rparr>) []],
                stack = [[], [0]], stack_levels = [0, 1], idx = 1\<rparr>) \<and>
   (\<exists>hm stk' lvls' pn h.
      heading_match ''# A\<newline>'' = Some hm \<and>
      pop_open [[]] [0] (length (group hm ''hashes'')) = Inr (stk', lvls') \<and>
      node_at (last stk')
        (Node Root False (DocumentFields \<lparr>leading_trivia = [], source_path = None\<rparr>) []) = Inr pn \<and>
      [[], [0]] = stk' @ [last stk' @ [length (children pn)]] \<and>
      [0, 1] = lvls' @ [length (group hm ''hashes'')])"
proof (intro conjI)
  show h: "length [[], [0], [0, 0], [0, 0, 0::nat]] = length [0, 1, 2, 3::nat]" by simp
  from heading_nesting [of "[[], [0], [0, 0], [0, 0, 0]]" "[0, 1, 2, 3]" 2] h
  have "\<exists>n. pop_open [[], [0], [0, 0], [0, 0, 0]] [0, 1, 2, 3] 2 =
          Inr (take n [[], [0], [0, 0], [0, 0, 0]], take n [0, 1, 2, 3]) \<and>
        n \<le> length [0, 1, 2, 3::nat] \<and> (n = 0 \<or> [0, 1, 2, 3::nat] ! (n - 1) < 2) \<and>
        (\<forall>j. n \<le> j \<and> j < length [0, 1, 2, 3::nat] \<longrightarrow> 2 \<le> [0, 1, 2, 3::nat] ! j)"
    by blast
  then show "\<exists>n. pop_open [[], [0], [0, 0], [0, 0, 0]] [0, 1, 2, 3] 2 =
          Inr (take n [[], [0], [0, 0], [0, 0, 0]], take n [0, 1, 2, 3]) \<and>
        n \<le> 4 \<and> (n = 0 \<or> [0, 1, 2, 3::nat] ! (n - 1) < 2)" by auto
next
  let ?r = "Node Root False (DocumentFields \<lparr>leading_trivia = [], source_path = None\<rparr>) []"
  let ?st = "\<lparr>tree = ?r, stack = [[]], stack_levels = [0], idx = 0\<rparr>"
  let ?st' = "\<lparr>tree = Node Root False (DocumentFields \<lparr>leading_trivia = [], source_path = None\<rparr>)
                   [Node Heading1 False
                      (HeadingFields \<lparr>Level = 1, raw_line_original = ''# A\<newline>'', prefix = ''# '',
                         title_leading = [], title_core = ''A'', title_trailing = [],
                         line_suffix = ''\<newline>'', h_block_suffix = []\<rparr>) []],
                stack = [[], [0]], stack_levels = [0, 1], idx = 1\<rparr>"
  show e: "heading_part [''# A\<newline>'', ''## B\<newline>''] ?st 0 ''# A\<newline>'' = Some (Inr ?st')"
    by code_simp
  from heading_nesting [of _ _ _ "[''# A\<newline>'', ''## B\<newline>'']" ?st 0 "''# A\<newline>''" ?st'] e
  have "\<exists>hm stk' lvls' pn h.
        heading_match ''# A\<newline>'' = Some hm \<and>
        pop_open (stack ?st) (stack_levels ?st) (length (group hm ''hashes'')) = Inr (stk', lvls') \<and>
        node_at (last stk') (tree ?st) = Inr pn \<and>
        HeadingNode (length (group hm ''hashes'')) ''# A\<newline>''
          (group hm ''indent'' @ group hm ''hashes'' @ group hm ''space'') (group hm ''title'')
          (group hm ''trailing'' @ group hm ''eol'')
          (fst (blank_run [''# A\<newline>'', ''## B\<newline>''] (0 + 1) [])) = Inr h \<and>
        append_parsed_at (last stk') h (tree ?st) = Inr (tree ?st') \<and>
        stack ?st' = stk' @ [last stk' @ [length (children pn)]] \<and>
        stack_levels ?st' = lvls' @ [length (group hm ''hashes'')]"
    by blast
  then show "\<exists>hm stk' lvls' pn h.
      heading_match ''# A\<newline>'' = Some hm \<and>
      pop_open [[]] [0] (length (group hm ''hashes'')) = Inr (stk', lvls') \<and>
      node_at (last stk') ?r = Inr pn \<and>
      [[], [0]] = stk' @ [last stk' @ [length (children pn)]] \<and>
      [0, 1] = lvls' @ [length (group hm ''hashes'')]"
    by simp blast
qed

section \<open>Fences\<close>

lemma dropWhile_indent:
  "list_all P ind \<Longrightarrow> xs = [] \<or> \<not> P (hd xs) \<Longrightarrow> dropWhile P (ind @ xs) = xs"
  by (induction ind) (auto simp: dropWhile_eq_self_iff)

lemma takeWhile_replicate_rest:
  "rest = [] \<or> hd rest \<noteq> c \<Longrightarrow> takeWhile (\<lambda>x. x = c) (replicate k c @ rest) = replicate k c"
  by (induction k) (auto simp: takeWhile_eq_Nil_iff)

lemma takeWhile_replicate_ge:
  "k \<le> length (takeWhile (\<lambda>x. x = c) (replicate k c @ rest))"
  by (induction k) auto

lemma replicate_hd: "1 \<le> k \<Longrightarrow> replicate k c @ rest = c # (replicate (k - 1) c @ rest)"
  by (cases k) auto

lemma dropWhile_indent_run:
  "list_all P ind \<Longrightarrow> 1 \<le> k \<Longrightarrow> \<not> P c \<Longrightarrow>
   dropWhile P (ind @ replicate k c @ rest) = replicate k c @ rest"
  using dropWhile_indent [of P ind "replicate k c @ rest"] replicate_hd [of k c rest] by simp

lemma not_close_short:
  assumes "1 \<le> k" "k < n" "c \<notin> {CHR '' '', TAB}" "list_all (cls_has sp_tab) ind"
    "rest = [] \<or> hd rest \<noteq> c"
  shows "\<not> is_close c n (ind @ replicate k c @ rest)"
proof
  assume "is_close c n (ind @ replicate k c @ rest)"
  from is_close_shape [OF this] obtain ind' k' rest' where
    s: "ind @ replicate k c @ rest = ind' @ replicate k' c @ rest'" "n \<le> k'"
      "list_all (cls_has sp_tab) ind'" by blast
  have nc: "\<not> cls_has sp_tab c" using assms(3) by (simp add: sp_tab_def)
  have a: "dropWhile (cls_has sp_tab) (ind @ replicate k c @ rest) = replicate k c @ rest"
    using assms(1,4) nc by (intro dropWhile_indent_run)
  have k'0: "1 \<le> k'" using s(2) assms(2) by simp
  have b: "dropWhile (cls_has sp_tab) (ind' @ replicate k' c @ rest') = replicate k' c @ rest'"
    using s(3) nc k'0 by (intro dropWhile_indent_run)
  from a b s(1) have e: "replicate k c @ rest = replicate k' c @ rest'" by simp
  have "length (takeWhile (\<lambda>x. x = c) (replicate k c @ rest)) = k"
    using takeWhile_replicate_rest [OF assms(5), of k] by simp
  moreover have "k' \<le> length (takeWhile (\<lambda>x. x = c) (replicate k' c @ rest'))"
    by (rule takeWhile_replicate_ge)
  ultimately show False using e s(2) assms(2) by simp
qed

lemma scan_fence_first:
  "i \<le> j \<Longrightarrow> j < length lines \<Longrightarrow> is_close c n (lines ! j) \<Longrightarrow>
   (\<forall>m. i \<le> m \<and> m < j \<longrightarrow> \<not> is_close c n (lines ! m)) \<Longrightarrow>
   scan_fence lines c n i body = (body @ take (j - i) (drop i lines), lines ! j, Suc j)"
proof (induction lines c n i body rule: scan_fence.induct)
  case (1 lines c n i body)
  show ?case
  proof (cases "i = j")
    case True
    with "1.prems" show ?thesis by (subst scan_fence.simps) simp
  next
    case False
    with "1.prems" have lt: "i < j" "i < length lines" "\<not> is_close c n (lines ! i)" by auto
    from "1.IH" [OF lt(2) refl lt(3)] "1.prems" lt
    have "scan_fence lines c n (i + 1) (body @ [lines ! i]) =
            ((body @ [lines ! i]) @ take (j - (i + 1)) (drop (i + 1) lines), lines ! j, Suc j)"
      by simp
    moreover have "j - i = Suc (j - (i + 1))" using lt by simp
    then have "take (j - i) (drop i lines) = lines ! i # take (j - (i + 1)) (drop (i + 1) lines)"
      using lt by (simp flip: Cons_nth_drop_Suc)
    ultimately show ?thesis using lt by (subst scan_fence.simps) simp
  qed
qed

lemma scan_fence_all:
  "(\<forall>m. i \<le> m \<and> m < length lines \<longrightarrow> \<not> is_close c n (lines ! m)) \<Longrightarrow> i \<le> length lines \<Longrightarrow>
   scan_fence lines c n i body = (body @ drop i lines, [], length lines)"
proof (induction lines c n i body rule: scan_fence.induct)
  case (1 lines c n i body)
  show ?case
  proof (cases "i < length lines")
    case False
    with "1.prems" show ?thesis by (subst scan_fence.simps) simp
  next
    case True
    with "1.prems" have nc: "\<not> is_close c n (lines ! i)" by simp
    from "1.IH" [OF True refl nc] "1.prems" True
    have "scan_fence lines c n (i + 1) (body @ [lines ! i]) =
            ((body @ [lines ! i]) @ drop (i + 1) lines, [], length lines)" by simp
    then show ?thesis using True nc by (subst scan_fence.simps) (simp flip: Cons_nth_drop_Suc)
  qed
qed

lemma fence_not_heading:
  assumes "fence_open_match line = Some fm"
  shows "heading_match line = None"
proof (rule ccontr)
  assume "heading_match line \<noteq> None"
  then obtain hm where "heading_match line = Some hm" by auto
  from heading_shape [OF this] obtain ind k rest where
    h: "line = ind @ replicate k (CHR ''#'') @ rest" "1 \<le> k" "list_all (cls_has sp_tab) ind" by blast
  from fence_open_shape [OF assms] obtain ind' k' c rest' where
    f: "line = ind' @ replicate k' c @ rest'" "3 \<le> k'" "c \<in> {backtick, tilde}"
      "list_all (cls_has sp_tab) ind'" by blast
  have "dropWhile (cls_has sp_tab) (ind @ replicate k (CHR ''#'') @ rest) = replicate k (CHR ''#'') @ rest"
    using h(2,3) by (intro dropWhile_indent_run) (auto simp: sp_tab_def TAB_def)
  moreover have "dropWhile (cls_has sp_tab) (ind' @ replicate k' c @ rest') = replicate k' c @ rest'"
    using f(2,3,4) by (intro dropWhile_indent_run) (auto simp: sp_tab_def TAB_def backtick_def tilde_def)
  ultimately have "replicate k (CHR ''#'') @ rest = replicate k' c @ rest'"
    using h(1) f(1) by simp
  then show False using h(2) f(2,3) by (cases k; cases k') (auto simp: backtick_def tilde_def)
qed

lemma modify_at_node:
  "node_at p t = Inr n \<Longrightarrow>
   \<exists>t'. modify_at p (\<lambda>x. Inr (g x)) t = Inr t' \<and> node_at p t' = Inr (g n)"
proof (induction p arbitrary: t)
  case Nil
  then show ?case by simp
next
  case (Cons k q)
  then have k: "k < length (children t)" and n: "node_at q (children t ! k) = Inr n"
    by (auto split: if_splits)
  from Cons.IH [OF n] obtain c' where
    c': "modify_at q (\<lambda>x. Inr (g x)) (children t ! k) = Inr c'" "node_at q c' = Inr (g n)" by blast
  then show ?case using k by simp
qed

lemma fence_fallback:
  assumes i: "idx st < length lines" and fo: "fence_open_match (lines ! idx st) = Some fm"
    and nc: "\<forall>m. idx st < m \<and> m < length lines \<longrightarrow>
               \<not> is_close (hd (group fm ''fence'')) (length (group fm ''fence'')) (lines ! m)"
  shows "parse_block lines st = paragraph_part lines st (idx st) (lines ! idx st)"
proof -
  from fence_open_shape [OF fo] obtain k c where
    f: "group fm ''fence'' = replicate k c" "3 \<le> k" by blast
  then obtain k' where k': "k = Suc k'" by (cases k) auto
  have fc: "group fm ''fence'' = c # replicate k' c" using f k' by simp
  have fl: "length (group fm ''fence'') = k" using f by simp
  have "\<forall>m. idx st + 1 \<le> m \<and> m < length lines \<longrightarrow> \<not> is_close c k (lines ! m)"
    using nc fc fl by simp
  from scan_fence_all [OF this, of "[]"] i
  have sc: "scan_fence lines c k (idx st + 1) [] = (drop (idx st + 1) lines, [], length lines)"
    by simp
  have "length lines - length (drop (idx st + 1) lines) - 1 = idx st" using i by simp
  then have "fence_part lines st = FallThrough (idx st) (lines ! idx st)"
    using fo fc fl sc by (simp add: fence_part_def Let_def)
  moreover have "heading_part lines st (idx st) (lines ! idx st) = None"
    using fence_not_heading [OF fo] by (simp add: heading_part_def)
  ultimately show ?thesis by (simp add: parse_block_def)
qed

text \<open>
  The turn of the main loop at an opening line: a code block when a closing line follows,
  the first closing line ending it; a paragraph from the opening line when none does.
\<close>

lemma fence_block:
  assumes i: "idx st < length lines" and fo: "fence_open_match (lines ! idx st) = Some fm"
    and j: "idx st < j" "j < length lines"
    and cl: "is_close (hd (group fm ''fence'')) (length (group fm ''fence'')) (lines ! j)"
    and nc: "\<forall>m. idx st < m \<and> m < j \<longrightarrow>
               \<not> is_close (hd (group fm ''fence'')) (length (group fm ''fence'')) (lines ! m)"
    and st: "stack st \<noteq> []" "node_at (last (stack st)) (tree st) = Inr pn"
  shows "\<exists>st'. parse_block lines st = Inr st' \<and>
           node_at (last (stack st)) (tree st') =
             Inr (AppendChildParsed
                    (CodeBlockNode (lines ! idx st)
                       (concat (take (j - idx st - 1) (drop (idx st + 1) lines)))
                       (lines ! j)
                       (concat (takeWhile is_blank (drop (j + 1) lines)))) pn) \<and>
           idx st' = j + 1 + length (takeWhile is_blank (drop (j + 1) lines)) \<and>
           stack st' = stack st \<and> stack_levels st' = stack_levels st"
proof -
  from fence_open_shape [OF fo] obtain k c where
    f: "group fm ''fence'' = replicate k c" "3 \<le> k" by blast
  then obtain k' where k': "k = Suc k'" by (cases k) auto
  have fc: "group fm ''fence'' = c # replicate k' c" using f k' by simp
  have fl: "length (group fm ''fence'') = k" using f by simp
  have hc: "hd (group fm ''fence'') = c" using fc by simp
  have "scan_fence lines c k (idx st + 1) [] =
          ([] @ take (j - (idx st + 1)) (drop (idx st + 1) lines), lines ! j, Suc j)"
    using j cl nc unfolding hc fl by (intro scan_fence_first) auto
  then have sc: "scan_fence lines c k (idx st + 1) [] =
          (take (j - idx st - 1) (drop (idx st + 1) lines), lines ! j, j + 1)" by simp
  have ne: "lines ! j \<noteq> []" using cl f(2) unfolding hc fl by (intro is_close_nonempty) auto
  let ?cb = "CodeBlockNode (lines ! idx st)
                       (concat (take (j - idx st - 1) (drop (idx st + 1) lines)))
                       (lines ! j)
                       (concat (takeWhile is_blank (drop (j + 1) lines)))"
  from modify_at_node [OF st(2), of "AppendChildParsed ?cb"] obtain t' where
    t': "append_parsed_at (last (stack st)) ?cb (tree st) = Inr t'"
      "node_at (last (stack st)) t' = Inr (AppendChildParsed ?cb pn)"
    unfolding append_parsed_at_def by blast
  have "fence_part lines st =
          Continue (Inr (st\<lparr>tree := t', idx := j + 1 + length (takeWhile is_blank (drop (j + 1) lines))\<rparr>))"
    using fo fc fl sc ne st(1) t'(1) by (simp add: fence_part_def Let_def blank_run_eq)
  then show ?thesis using t'(2) by (simp add: parse_block_def)
qed

lemma fence_fallback_paragraph:
  assumes i: "idx st < length lines" and fo: "fence_open_match (lines ! idx st) = Some fm"
    and nc: "\<forall>m. idx st < m \<and> m < length lines \<longrightarrow>
               \<not> is_close (hd (group fm ''fence'')) (length (group fm ''fence'')) (lines ! m)"
    and st: "stack st \<noteq> []" "node_at (last (stack st)) (tree st) = Inr pn"
  shows "\<exists>st' para.
           parse_block lines st = Inr st' \<and>
           ParagraphNode
             (concat (lines ! idx st # takeWhile continues_paragraph (drop (idx st + 1) lines)))
             (concat (takeWhile is_blank
                (drop (idx st + 1 + length (takeWhile continues_paragraph (drop (idx st + 1) lines)))
                   lines))) = Inr para \<and>
           node_at (last (stack st)) (tree st') = Inr (AppendChildParsed para pn) \<and>
           idx st' =
             idx st + 1 + length (takeWhile continues_paragraph (drop (idx st + 1) lines)) +
             length (takeWhile is_blank
                (drop (idx st + 1 + length (takeWhile continues_paragraph (drop (idx st + 1) lines)))
                   lines)) \<and>
           stack st' = stack st \<and> stack_levels st' = stack_levels st"
proof -
  let ?tw = "takeWhile continues_paragraph (drop (idx st + 1) lines)"
  let ?i2 = "idx st + 1 + length ?tw"
  let ?bs = "concat (takeWhile is_blank (drop ?i2 lines))"
  from ParagraphNode_ok [of "concat (lines ! idx st # ?tw)" ?bs] obtain p where
    p: "ParagraphNode (concat (lines ! idx st # ?tw)) ?bs = Inr p" by blast
  from modify_at_node [OF st(2), of "AppendChildParsed p"] obtain t' where
    t': "append_parsed_at (last (stack st)) p (tree st) = Inr t'"
      "node_at (last (stack st)) t' = Inr (AppendChildParsed p pn)"
    unfolding append_parsed_at_def by blast
  have "paragraph_part lines st (idx st) (lines ! idx st) =
          Inr (st\<lparr>tree := t', idx := ?i2 + length (takeWhile is_blank (drop ?i2 lines))\<rparr>)"
    using p t'(1) st(1) by (simp add: paragraph_part_def para_loop_eq blank_run_eq)
  with fence_fallback [OF i fo nc] p t'(2) show ?thesis
    by (intro exI [of _ "st\<lparr>tree := t', idx := ?i2 + length (takeWhile is_blank (drop ?i2 lines))\<rparr>"]
          exI [of _ p]) simp
qed

lemma fence_examples:
  "map_sum id outline (FromString ''````\<newline>code\<newline>```\<newline>more\<newline>````\<newline>'') =
     Inr (Outline Root [] [Outline CodeBlock ''code\<newline>```\<newline>more\<newline>'' []])"
  "map_sum id outline (FromString ''````\<newline>code\<newline>```\<newline>'') =
     Inr (Outline Root []
       [Outline Paragraph ''````\<newline>code'' [Outline Text ''````\<newline>code'' []],
        Outline Paragraph ''```'' [Outline Text ''```'' []]])"
  by code_simp+

text \<open>
  C3. Fence matching. A line of fewer fence characters than the opening fence has (three
  backticks after an opening of four) is no closing line, and a closing line consists of
  spaces and tabs, then at least as many copies of the opening fence character as the
  opening fence has, then anything. The search for the closing line puts every line
  before the first closing line into the code body. In the main loop, at an opening line
  that a closing line follows, the turn appends one code block to the node on top of the
  stack: its body is every line between the opening line and the first closing line, its
  suffix the blank lines after the closing line, and the next turn starts after these.
  When no line after the opening line closes the fence, nothing is raised and the turn
  appends a paragraph instead. That paragraph starts with the opening line and goes on
  only as far as the next line that is blank, a heading or an opening fence; its suffix is
  the blank lines that follow, and the next turn starts after these, on the rest of the
  lines, by the ordinary rules. So the lines after an unclosed opening line are not all
  paragraph content.
\<close>

theorem fence_matching:
  "(1 \<le> k \<and> k < n \<and> c \<notin> {CHR '' '', TAB} \<and> list_all (cls_has sp_tab) ind \<and>
    (rest = [] \<or> hd rest \<noteq> c) \<longrightarrow> \<not> is_close c n (ind @ replicate k c @ rest)) \<and>
   (is_close c n l \<longrightarrow>
      (\<exists>ind' k' rest'. l = ind' @ replicate k' c @ rest' \<and> n \<le> k' \<and>
          list_all (cls_has sp_tab) ind')) \<and>
   (i \<le> j \<and> j < length lines \<and> is_close c n (lines ! j) \<and>
    (\<forall>m. i \<le> m \<and> m < j \<longrightarrow> \<not> is_close c n (lines ! m)) \<longrightarrow>
      scan_fence lines c n i body = (body @ take (j - i) (drop i lines), lines ! j, Suc j)) \<and>
   (idx st < length lines \<and> fence_open_match (lines ! idx st) = Some fm \<and>
    idx st < jc \<and> jc < length lines \<and>
    is_close (hd (group fm ''fence'')) (length (group fm ''fence'')) (lines ! jc) \<and>
    (\<forall>m. idx st < m \<and> m < jc \<longrightarrow>
        \<not> is_close (hd (group fm ''fence'')) (length (group fm ''fence'')) (lines ! m)) \<and>
    stack st \<noteq> [] \<and> node_at (last (stack st)) (tree st) = Inr pn \<longrightarrow>
      (\<exists>st'. parse_block lines st = Inr st' \<and>
         node_at (last (stack st)) (tree st') =
           Inr (AppendChildParsed
                  (CodeBlockNode (lines ! idx st)
                     (concat (take (jc - idx st - 1) (drop (idx st + 1) lines)))
                     (lines ! jc)
                     (concat (takeWhile is_blank (drop (jc + 1) lines)))) pn) \<and>
         idx st' = jc + 1 + length (takeWhile is_blank (drop (jc + 1) lines)) \<and>
         stack st' = stack st \<and> stack_levels st' = stack_levels st)) \<and>
   (idx st < length lines \<and> fence_open_match (lines ! idx st) = Some fm \<and>
    (\<forall>m. idx st < m \<and> m < length lines \<longrightarrow>
        \<not> is_close (hd (group fm ''fence'')) (length (group fm ''fence'')) (lines ! m)) \<and>
    stack st \<noteq> [] \<and> node_at (last (stack st)) (tree st) = Inr pn \<longrightarrow>
      (\<exists>st' para.
         parse_block lines st = Inr st' \<and>
         ParagraphNode
           (concat (lines ! idx st # takeWhile continues_paragraph (drop (idx st + 1) lines)))
           (concat (takeWhile is_blank
              (drop (idx st + 1 + length (takeWhile continues_paragraph (drop (idx st + 1) lines)))
                 lines))) = Inr para \<and>
         node_at (last (stack st)) (tree st') = Inr (AppendChildParsed para pn) \<and>
         idx st' =
           idx st + 1 + length (takeWhile continues_paragraph (drop (idx st + 1) lines)) +
           length (takeWhile is_blank
              (drop (idx st + 1 + length (takeWhile continues_paragraph (drop (idx st + 1) lines)))
                 lines)) \<and>
         stack st' = stack st \<and> stack_levels st' = stack_levels st))"
proof (intro conjI impI)
  assume "1 \<le> k \<and> k < n \<and> c \<notin> {CHR '' '', TAB} \<and> list_all (cls_has sp_tab) ind \<and>
    (rest = [] \<or> hd rest \<noteq> c)"
  then show "\<not> is_close c n (ind @ replicate k c @ rest)"
    using not_close_short [of k n c ind rest] by blast
next
  assume "is_close c n l"
  then show "\<exists>ind' k' rest'. l = ind' @ replicate k' c @ rest' \<and> n \<le> k' \<and>
          list_all (cls_has sp_tab) ind'"
    by (rule is_close_shape)
next
  assume "i \<le> j \<and> j < length lines \<and> is_close c n (lines ! j) \<and>
    (\<forall>m. i \<le> m \<and> m < j \<longrightarrow> \<not> is_close c n (lines ! m))"
  then show "scan_fence lines c n i body = (body @ take (j - i) (drop i lines), lines ! j, Suc j)"
    using scan_fence_first [of i j lines c n body] by blast
next
  assume a: "idx st < length lines \<and> fence_open_match (lines ! idx st) = Some fm \<and>
    idx st < jc \<and> jc < length lines \<and>
    is_close (hd (group fm ''fence'')) (length (group fm ''fence'')) (lines ! jc) \<and>
    (\<forall>m. idx st < m \<and> m < jc \<longrightarrow>
        \<not> is_close (hd (group fm ''fence'')) (length (group fm ''fence'')) (lines ! m)) \<and>
    stack st \<noteq> [] \<and> node_at (last (stack st)) (tree st) = Inr pn"
  then have "idx st < length lines" "fence_open_match (lines ! idx st) = Some fm"
    "idx st < jc" "jc < length lines"
    "is_close (hd (group fm ''fence'')) (length (group fm ''fence'')) (lines ! jc)"
    "\<forall>m. idx st < m \<and> m < jc \<longrightarrow>
        \<not> is_close (hd (group fm ''fence'')) (length (group fm ''fence'')) (lines ! m)"
    "stack st \<noteq> []" "node_at (last (stack st)) (tree st) = Inr pn" by blast+
  then show "\<exists>st'. parse_block lines st = Inr st' \<and>
         node_at (last (stack st)) (tree st') =
           Inr (AppendChildParsed
                  (CodeBlockNode (lines ! idx st)
                     (concat (take (jc - idx st - 1) (drop (idx st + 1) lines)))
                     (lines ! jc)
                     (concat (takeWhile is_blank (drop (jc + 1) lines)))) pn) \<and>
         idx st' = jc + 1 + length (takeWhile is_blank (drop (jc + 1) lines)) \<and>
         stack st' = stack st \<and> stack_levels st' = stack_levels st"
    by (rule fence_block)
next
  assume a: "idx st < length lines \<and> fence_open_match (lines ! idx st) = Some fm \<and>
    (\<forall>m. idx st < m \<and> m < length lines \<longrightarrow>
        \<not> is_close (hd (group fm ''fence'')) (length (group fm ''fence'')) (lines ! m)) \<and>
    stack st \<noteq> [] \<and> node_at (last (stack st)) (tree st) = Inr pn"
  then have "idx st < length lines" "fence_open_match (lines ! idx st) = Some fm"
    "\<forall>m. idx st < m \<and> m < length lines \<longrightarrow>
        \<not> is_close (hd (group fm ''fence'')) (length (group fm ''fence'')) (lines ! m)"
    "stack st \<noteq> []" "node_at (last (stack st)) (tree st) = Inr pn" by blast+
  then show "\<exists>st' para.
         parse_block lines st = Inr st' \<and>
         ParagraphNode
           (concat (lines ! idx st # takeWhile continues_paragraph (drop (idx st + 1) lines)))
           (concat (takeWhile is_blank
              (drop (idx st + 1 + length (takeWhile continues_paragraph (drop (idx st + 1) lines)))
                 lines))) = Inr para \<and>
         node_at (last (stack st)) (tree st') = Inr (AppendChildParsed para pn) \<and>
         idx st' =
           idx st + 1 + length (takeWhile continues_paragraph (drop (idx st + 1) lines)) +
           length (takeWhile is_blank
              (drop (idx st + 1 + length (takeWhile continues_paragraph (drop (idx st + 1) lines)))
                 lines)) \<and>
         stack st' = stack st \<and> stack_levels st' = stack_levels st"
    by (rule fence_fallback_paragraph)
qed

theorem fence_matching_witness:
  "\<not> is_close backtick 4 ''```\<newline>'' \<and>
   (\<exists>ind' k' rest'. ''`````\<newline>'' = ind' @ replicate k' backtick @ rest' \<and> 4 \<le> k' \<and>
        list_all (cls_has sp_tab) ind') \<and>
   scan_fence [''````\<newline>'', ''code\<newline>'', ''```\<newline>'', ''more\<newline>'', ''````\<newline>''] backtick 4 1 [] =
     ([''code\<newline>'', ''```\<newline>'', ''more\<newline>''], ''````\<newline>'', 5) \<and>
   (\<exists>st'.
      parse_block [''````\<newline>'', ''code\<newline>'', ''```\<newline>'', ''more\<newline>'', ''````\<newline>'', ''\<newline>'']
        \<lparr>tree = Node Root False (DocumentFields \<lparr>leading_trivia = [], source_path = None\<rparr>) [],
         stack = [[]], stack_levels = [0], idx = 0\<rparr> = Inr st' \<and>
      node_at [] (tree st') =
        Inr (AppendChildParsed
               (CodeBlockNode ''````\<newline>'' ''code\<newline>```\<newline>more\<newline>'' ''````\<newline>'' ''\<newline>'')
               (Node Root False (DocumentFields \<lparr>leading_trivia = [], source_path = None\<rparr>) [])) \<and>
      idx st' = 6) \<and>
   (\<exists>st' para.
      parse_block [''````\<newline>'', ''code\<newline>'', ''```\<newline>'']
        \<lparr>tree = Node Root False (DocumentFields \<lparr>leading_trivia = [], source_path = None\<rparr>) [],
         stack = [[]], stack_levels = [0], idx = 0\<rparr> = Inr st' \<and>
      ParagraphNode ''````\<newline>code\<newline>'' [] = Inr para \<and>
      node_at [] (tree st') =
        Inr (AppendChildParsed para
               (Node Root False (DocumentFields \<lparr>leading_trivia = [], source_path = None\<rparr>) [])) \<and>
      idx st' = 2) \<and>
   map_sum id outline (FromString ''````\<newline>code\<newline>```\<newline>more\<newline>````\<newline>'') =
     Inr (Outline Root [] [Outline CodeBlock ''code\<newline>```\<newline>more\<newline>'' []]) \<and>
   map_sum id outline (FromString ''````\<newline>code\<newline>```\<newline>'') =
     Inr (Outline Root []
       [Outline Paragraph ''````\<newline>code'' [Outline Text ''````\<newline>code'' []],
        Outline Paragraph ''```'' [Outline Text ''```'' []]])"
proof (intro conjI)
  have h: "1 \<le> (3::nat) \<and> (3::nat) < 4 \<and> backtick \<notin> {CHR '' '', TAB} \<and>
           list_all (cls_has sp_tab) [] \<and> (''\<newline>'' = [] \<or> hd ''\<newline>'' \<noteq> backtick)"
    by (simp add: backtick_def TAB_def)
  have r: "[] @ replicate 3 backtick @ ''\<newline>'' = ''```\<newline>''"
    by (simp add: backtick_def numeral_3_eq_3)
  from fence_matching [where k = 3 and n = 4 and c = backtick and ind = "[]" and rest = "''\<newline>''"] h
  have "\<not> is_close backtick 4 ([] @ replicate 3 backtick @ ''\<newline>'')" by blast
  then show "\<not> is_close backtick 4 ''```\<newline>''" unfolding r .
next
  have "is_close backtick 4 ''`````\<newline>''" by code_simp
  with fence_matching [where n = 4 and c = backtick and l = "''`````\<newline>''"]
  show "\<exists>ind' k' rest'. ''`````\<newline>'' = ind' @ replicate k' backtick @ rest' \<and> 4 \<le> k' \<and>
        list_all (cls_has sp_tab) ind'" by blast
next
  let ?L = "[''````\<newline>'', ''code\<newline>'', ''```\<newline>'', ''more\<newline>'', ''````\<newline>'']"
  have c: "is_close backtick 4 ''````\<newline>''" "\<not> is_close backtick 4 ''code\<newline>''"
    "\<not> is_close backtick 4 ''```\<newline>''" "\<not> is_close backtick 4 ''more\<newline>''"
    by code_simp+
  have "\<forall>m. (1::nat) \<le> m \<and> m < 4 \<longrightarrow> \<not> is_close backtick 4 (?L ! m)"
  proof (intro allI impI)
    fix m :: nat assume "1 \<le> m \<and> m < 4"
    then have "m = 1 \<or> m = 2 \<or> m = 3" by auto
    then show "\<not> is_close backtick 4 (?L ! m)" using c by auto
  qed
  then have "(1::nat) \<le> 4 \<and> 4 < length ?L \<and> is_close backtick 4 (?L ! 4) \<and>
             (\<forall>m. 1 \<le> m \<and> m < 4 \<longrightarrow> \<not> is_close backtick 4 (?L ! m))"
    using c(1) by simp
  with fence_matching [where n = 4 and c = backtick and i = 1 and j = 4 and lines = ?L and body = "[]"]
  have "scan_fence ?L backtick 4 1 [] = ([] @ take (4 - 1) (drop 1 ?L), ?L ! 4, Suc 4)" by blast
  then show "scan_fence ?L backtick 4 1 [] = ([''code\<newline>'', ''```\<newline>'', ''more\<newline>''], ''````\<newline>'', 5)"
    by simp
next
  let ?L = "[''````\<newline>'', ''code\<newline>'', ''```\<newline>'', ''more\<newline>'', ''````\<newline>'', ''\<newline>'']"
  let ?r = "Node Root False (DocumentFields \<lparr>leading_trivia = [], source_path = None\<rparr>) []"
  let ?st = "\<lparr>tree = ?r, stack = [[]], stack_levels = [0], idx = 0\<rparr>"
  let ?fm = "[(''eol'', ''\<newline>''), (''info'', []), (''fence'', ''````''), (''indent'', [])]"
  have fo: "fence_open_match ''````\<newline>'' = Some ?fm" by code_simp
  have g: "hd (group ?fm ''fence'') = backtick" "length (group ?fm ''fence'') = 4"
    by (simp_all add: group_def backtick_def)
  have c: "is_close backtick 4 ''````\<newline>''" "\<not> is_close backtick 4 ''code\<newline>''"
    "\<not> is_close backtick 4 ''```\<newline>''" "\<not> is_close backtick 4 ''more\<newline>''"
    by code_simp+
  have b: "is_blank ''\<newline>''" by code_simp
  have nc: "\<forall>m. idx ?st < m \<and> m < 4 \<longrightarrow>
              \<not> is_close (hd (group ?fm ''fence'')) (length (group ?fm ''fence'')) (?L ! m)"
  proof (intro allI impI)
    fix m :: nat assume "idx ?st < m \<and> m < 4"
    then have "m = 1 \<or> m = 2 \<or> m = 3" by auto
    then show "\<not> is_close (hd (group ?fm ''fence'')) (length (group ?fm ''fence'')) (?L ! m)"
      using c unfolding g by auto
  qed
  have h: "idx ?st < length ?L \<and> fence_open_match (?L ! idx ?st) = Some ?fm \<and>
        idx ?st < 4 \<and> 4 < length ?L \<and>
        is_close (hd (group ?fm ''fence'')) (length (group ?fm ''fence'')) (?L ! 4) \<and>
        (\<forall>m. idx ?st < m \<and> m < 4 \<longrightarrow>
              \<not> is_close (hd (group ?fm ''fence'')) (length (group ?fm ''fence'')) (?L ! m)) \<and>
        stack ?st \<noteq> [] \<and> node_at (last (stack ?st)) (tree ?st) = Inr ?r"
    using fo nc c(1) unfolding g by simp
  from fence_matching [where lines = ?L and st = ?st and fm = ?fm and pn = ?r and jc = 4] h
  have "\<exists>st'. parse_block ?L ?st = Inr st' \<and>
         node_at (last (stack ?st)) (tree st') =
           Inr (AppendChildParsed
                  (CodeBlockNode (?L ! idx ?st)
                     (concat (take (4 - idx ?st - 1) (drop (idx ?st + 1) ?L)))
                     (?L ! 4)
                     (concat (takeWhile is_blank (drop (4 + 1) ?L)))) ?r) \<and>
         idx st' = 4 + 1 + length (takeWhile is_blank (drop (4 + 1) ?L)) \<and>
         stack st' = stack ?st \<and> stack_levels st' = stack_levels ?st"
    by blast
  then show "\<exists>st'. parse_block ?L ?st = Inr st' \<and>
      node_at [] (tree st') =
        Inr (AppendChildParsed
               (CodeBlockNode ''````\<newline>'' ''code\<newline>```\<newline>more\<newline>'' ''````\<newline>'' ''\<newline>'') ?r) \<and>
      idx st' = 6"
    using b by auto
next
  let ?L = "[''````\<newline>'', ''code\<newline>'', ''```\<newline>'']"
  let ?r = "Node Root False (DocumentFields \<lparr>leading_trivia = [], source_path = None\<rparr>) []"
  let ?st = "\<lparr>tree = ?r, stack = [[]], stack_levels = [0], idx = 0\<rparr>"
  let ?fm = "[(''eol'', ''\<newline>''), (''info'', []), (''fence'', ''````''), (''indent'', [])]"
  have fo: "fence_open_match ''````\<newline>'' = Some ?fm" by code_simp
  have g: "hd (group ?fm ''fence'') = backtick" "length (group ?fm ''fence'') = 4"
    by (simp_all add: group_def backtick_def)
  have c: "\<not> is_close backtick 4 ''code\<newline>''" "\<not> is_close backtick 4 ''```\<newline>''"
    by code_simp+
  have p: "continues_paragraph ''code\<newline>''" "\<not> continues_paragraph ''```\<newline>''"
    "\<not> is_blank ''```\<newline>''"
    by code_simp+
  have nc: "\<forall>m. idx ?st < m \<and> m < length ?L \<longrightarrow>
              \<not> is_close (hd (group ?fm ''fence'')) (length (group ?fm ''fence'')) (?L ! m)"
  proof (intro allI impI)
    fix m :: nat assume "idx ?st < m \<and> m < length ?L"
    then have "m = 1 \<or> m = 2" by auto
    then show "\<not> is_close (hd (group ?fm ''fence'')) (length (group ?fm ''fence'')) (?L ! m)"
      using c unfolding g by auto
  qed
  have h: "idx ?st < length ?L \<and> fence_open_match (?L ! idx ?st) = Some ?fm \<and>
        (\<forall>m. idx ?st < m \<and> m < length ?L \<longrightarrow>
              \<not> is_close (hd (group ?fm ''fence'')) (length (group ?fm ''fence'')) (?L ! m)) \<and>
        stack ?st \<noteq> [] \<and> node_at (last (stack ?st)) (tree ?st) = Inr ?r"
    using fo nc by simp
  from fence_matching [where lines = ?L and st = ?st and fm = ?fm and pn = ?r] h
  have "\<exists>st' para.
         parse_block ?L ?st = Inr st' \<and>
         ParagraphNode
           (concat (?L ! idx ?st # takeWhile continues_paragraph (drop (idx ?st + 1) ?L)))
           (concat (takeWhile is_blank
              (drop (idx ?st + 1 + length (takeWhile continues_paragraph (drop (idx ?st + 1) ?L)))
                 ?L))) = Inr para \<and>
         node_at (last (stack ?st)) (tree st') = Inr (AppendChildParsed para ?r) \<and>
         idx st' =
           idx ?st + 1 + length (takeWhile continues_paragraph (drop (idx ?st + 1) ?L)) +
           length (takeWhile is_blank
              (drop (idx ?st + 1 + length (takeWhile continues_paragraph (drop (idx ?st + 1) ?L)))
                 ?L)) \<and>
         stack st' = stack ?st \<and> stack_levels st' = stack_levels ?st"
    by blast
  then show "\<exists>st' para. parse_block ?L ?st = Inr st' \<and>
      ParagraphNode ''````\<newline>code\<newline>'' [] = Inr para \<and>
      node_at [] (tree st') = Inr (AppendChildParsed para ?r) \<and> idx st' = 2"
    using p by auto
qed (use fence_examples in simp_all)

text \<open>
  The text \<open>````\<close>, \<open># H\<close>, \<open>```\<close>, \<open>x\<close>, \<open>```\<close>: the opening line of four backticks
  has no closing line after it, since no later line has four backticks. Only the opening
  line becomes a paragraph. The line after it is parsed as a heading, and the two lines
  of three backticks, which do not close the first fence, open and close a code block
  of their own, under that heading.
\<close>

theorem unclosed_fence_region:
  "fence_open_match ''````\<newline>'' \<noteq> None \<and>
   \<not> is_close backtick 4 ''# H\<newline>'' \<and> \<not> is_close backtick 4 ''```\<newline>'' \<and>
   \<not> is_close backtick 4 ''x\<newline>'' \<and>
   splitlines ''````\<newline># H\<newline>```\<newline>x\<newline>```\<newline>'' =
     [''````\<newline>'', ''# H\<newline>'', ''```\<newline>'', ''x\<newline>'', ''```\<newline>''] \<and>
   map_sum id outline (FromString ''````\<newline># H\<newline>```\<newline>x\<newline>```\<newline>'') =
     Inr (Outline Root []
       [Outline Paragraph ''````'' [Outline Text ''````'' []],
        Outline Heading1 ''H'' [Outline CodeBlock ''x\<newline>'' []]])"
  by code_simp

section \<open>Assignments in a document\<close>

text \<open>
  An assignment through a reference into the document: \<open>doc[2][0].Href = v\<close> is
  \<open>assign_Href [2, 0] v doc\<close>. The result is the document afterwards, or what is raised.
\<close>

definition assign_Text :: "path \<Rightarrow> string \<Rightarrow> node \<Rightarrow> error + node" where
  "assign_Text p v doc = modify_at p (set_Text v) doc"

definition assign_Href :: "path \<Rightarrow> string \<Rightarrow> node \<Rightarrow> error + node" where
  "assign_Href p v doc = modify_at p (\<lambda>n. Inr (set_Href v n)) doc"

lemma concat_map_update:
  "k < length cs \<Longrightarrow>
   concat (map f (cs[k := c])) = concat (map f (take k cs)) @ f c @ concat (map f (drop (Suc k) cs))"
  by (simp add: upd_conv_take_nth_drop)

lemma concat_map_nth:
  "k < length cs \<Longrightarrow>
   concat (map f cs) = concat (map f (take k cs)) @ f (cs ! k) @ concat (map f (drop (Suc k) cs))"
  using concat_map_update [of k cs f "cs ! k"] by simp

lemma IsDirty_update: "k < length cs \<Longrightarrow> IsDirty c \<Longrightarrow> list_ex IsDirty (cs[k := c])"
  by (auto simp: list_ex_iff set_conv_nth intro!: exI [of _ k])

lemma set_Href_link:
  assumes "leaf n" "flds n = LinkFields lf"
  shows "ToMarkdown n = l_raw_original lf" "l_raw_original lf = link_text lf"
    "ToMarkdown (set_Href v n) = link_text (lf\<lparr>href_core := strip v\<rparr>)"
    "IsDirty (set_Href v n)"
  using assms by (cases n; simp add: leaf_def set_Href_def MarkDirty_def link_text_def)+

lemma set_href_diff:
  "parsed t \<Longrightarrow> node_at p t = Inr n \<Longrightarrow> flds n = LinkFields lf \<Longrightarrow>
   \<exists>t' pre post. assign_Href p v t = Inr t' \<and> ToMarkdown t = pre @ l_raw_original lf @ post \<and>
      ToMarkdown t' = pre @ link_text (lf\<lparr>href_core := strip v\<rparr>) @ post \<and> IsDirty t'"
proof (induction p arbitrary: t)
  case Nil
  then have l: "leaf t" "flds t = LinkFields lf" by (cases t; auto)+
  from set_Href_link [OF l] Nil show ?case
    by (intro exI [of _ "set_Href v t"] exI [of _ "[]"]) (simp add: assign_Href_def)
next
  case (Cons k q)
  obtain ty d f cs where t: "t = Node ty d f cs" by (cases t)
  from Cons.prems t have k: "k < length cs" and n: "node_at q (cs ! k) = Inr n"
    by (auto split: if_splits)
  from Cons.prems(1) t k have pc: "parsed (cs ! k)"
    by (cases f) (auto simp: list_all_length dest: leaf_parsed leaf_children)
  from Cons.IH [OF pc n Cons.prems(3)] obtain c' pre post where
    IH: "assign_Href q v (cs ! k) = Inr c'" "ToMarkdown (cs ! k) = pre @ l_raw_original lf @ post"
      "ToMarkdown c' = pre @ link_text (lf\<lparr>href_core := strip v\<rparr>) @ post" "IsDirty c'"
    by blast
  let ?t' = "Node ty d f (cs[k := c'])"
  let ?A = "concat (map ToMarkdown (take k cs))"
  let ?B = "concat (map ToMarkdown (drop (Suc k) cs))"
  have a: "assign_Href (k # q) v t = Inr ?t'"
    using IH(1) k t by (simp add: assign_Href_def)
  have d: "IsDirty ?t'" using IsDirty_update [OF k IH(4)] by simp
  have old: "concat (map ToMarkdown cs) = ?A @ pre @ l_raw_original lf @ post @ ?B"
    using concat_map_nth [OF k, of ToMarkdown] IH(2) by simp
  have new: "concat (map ToMarkdown (cs[k := c'])) =
               ?A @ pre @ link_text (lf\<lparr>href_core := strip v\<rparr>) @ post @ ?B"
    using concat_map_update [OF k, of ToMarkdown c'] IH(3) by simp
  have "\<exists>pre' post'. ToMarkdown t = pre' @ l_raw_original lf @ post' \<and>
          ToMarkdown ?t' = pre' @ link_text (lf\<lparr>href_core := strip v\<rparr>) @ post'"
  proof (cases f)
    case BaseNode
    with Cons.prems(1) t show ?thesis by simp
  next
    case (TextFields x)
    with Cons.prems(1) t k show ?thesis by (auto dest: leaf_children)
  next
    case (LinkFields x)
    with Cons.prems(1) t k show ?thesis by (auto dest: leaf_children)
  next
    case (CodeFields x)
    with Cons.prems(1) t k show ?thesis by auto
  next
    case (HeadingFields x)
    with Cons.prems(1) t have "\<not> d" by simp
    with HeadingFields t old new show ?thesis
      by (intro exI [of _ "raw_line_original x @ h_block_suffix x @ ?A @ pre"] exI [of _ "post @ ?B"])
         (simp add: Let_def)
  next
    case (ParagraphFields x)
    with Cons.prems(1) t have c: "\<not> d" "list_all leaf cs" "concat (map ToMarkdown cs) = p_raw_original x"
      by auto
    have "\<not> list_ex IsDirty cs" using c(2) by (rule leaves_clean)
    with ParagraphFields t old new c IsDirty_update [OF k IH(4)] show ?thesis
      by (intro exI [of _ "?A @ pre"] exI [of _ "post @ ?B @ p_block_suffix x"])
         (simp add: Let_def)
  next
    case (DocumentFields x)
    with t old new show ?thesis
      by (intro exI [of _ "leading_trivia x @ ?A @ pre"] exI [of _ "post @ ?B"]) simp
  qed
  with a d show ?case by blast
qed

text \<open>
  C2. Minimal-diff mutation: in a document parsed from \<open>s\<close>, assigning \<open>Href\<close> of a link
  and serialising changes the span of that link only: the output is the input with the
  link's raw text replaced by the link rebuilt around the new target, every character
  before and after it as in the input; the link's raw text is the link built from its
  captured fields, so that within the span only the target differs.
\<close>

theorem minimal_diff_mutation:
  assumes "MarkdownDocument s sp = Inr d" "node_at p d = Inr n" "flds n = LinkFields lf"
  shows "\<exists>d' pre post. assign_Href p v d = Inr d' \<and> s = pre @ l_raw_original lf @ post \<and>
           ToMarkdown d' = pre @ link_text (lf\<lparr>href_core := strip v\<rparr>) @ post \<and>
           l_raw_original lf = link_text lf"
proof -
  have pd: "parsed d \<and> ToMarkdown d = s"
  proof (cases "s = []")
    case True
    with assms(1) show ?thesis by (auto simp: MarkdownDocument_def)
  next
    case False
    let ?self = "Node Root False (DocumentFields \<lparr>leading_trivia = [], source_path = sp\<rparr>) []"
    from Parse_ok [of ?self _ s] obtain d0 where "Parse s ?self = Inr d0" "ToMarkdown d0 = s" "parsed d0"
      by auto
    with assms(1) False show ?thesis by (simp add: MarkdownDocument_def)
  qed
  from parsed_node_at [OF _ assms(2)] pd have "parsed n" by simp
  with assms(3) have "leaf n" by (cases n) simp
  from set_Href_link(2) [OF this assms(3)] have r: "l_raw_original lf = link_text lf" .
  from set_href_diff [OF _ assms(2,3), of v] pd r show ?thesis by auto
qed

theorem minimal_diff_mutation_witness:
  "\<exists>d' pre post.
     assign_Href [1, 0] '' new ''
       (Node Root False (DocumentFields \<lparr>leading_trivia = [], source_path = None\<rparr>)
          [Node Paragraph False
             (ParagraphFields \<lparr>p_raw_original = ''[a](x)\<newline>'', p_block_suffix = ''\<newline>''\<rparr>)
             [LinkNode ''[a](x)'' ''a'' ''x'' False, TextNode ''\<newline>''],
           Node Paragraph False
             (ParagraphFields \<lparr>p_raw_original = ''[b]( y)\<newline>'', p_block_suffix = ''\<newline>''\<rparr>)
             [LinkNode ''[b]( y)'' ''b'' '' y'' False, TextNode ''\<newline>''],
           Node Paragraph False
             (ParagraphFields \<lparr>p_raw_original = ''[c](z)\<newline>'', p_block_suffix = []\<rparr>)
             [LinkNode ''[c](z)'' ''c'' ''z'' False, TextNode ''\<newline>'']]) = Inr d' \<and>
     ''[a](x)\<newline>\<newline>[b]( y)\<newline>\<newline>[c](z)\<newline>'' = pre @ ''[b]( y)'' @ post \<and>
     ToMarkdown d' = pre @ ''[b]( new)'' @ post"
proof -
  let ?s = "''[a](x)\<newline>\<newline>[b]( y)\<newline>\<newline>[c](z)\<newline>''"
  let ?d = "Node Root False (DocumentFields \<lparr>leading_trivia = [], source_path = None\<rparr>)
          [Node Paragraph False
             (ParagraphFields \<lparr>p_raw_original = ''[a](x)\<newline>'', p_block_suffix = ''\<newline>''\<rparr>)
             [LinkNode ''[a](x)'' ''a'' ''x'' False, TextNode ''\<newline>''],
           Node Paragraph False
             (ParagraphFields \<lparr>p_raw_original = ''[b]( y)\<newline>'', p_block_suffix = ''\<newline>''\<rparr>)
             [LinkNode ''[b]( y)'' ''b'' '' y'' False, TextNode ''\<newline>''],
           Node Paragraph False
             (ParagraphFields \<lparr>p_raw_original = ''[c](z)\<newline>'', p_block_suffix = []\<rparr>)
             [LinkNode ''[c](z)'' ''c'' ''z'' False, TextNode ''\<newline>'']]"
  let ?lf = "\<lparr>l_raw_original = ''[b]( y)'', is_image = False, label_leading = [],
              label_core = ''b'', label_trailing = [], href_leading = '' '', href_core = ''y'',
              href_trailing = []\<rparr>"
  have e: "MarkdownDocument ?s None = Inr ?d" by code_simp
  have n: "node_at [1, 0] ?d = Inr (LinkNode ''[b]( y)'' ''b'' '' y'' False)" by simp
  have f: "flds (LinkNode ''[b]( y)'' ''b'' '' y'' False) = LinkFields ?lf" by code_simp
  have v: "strip '' new '' = ''new''" by code_simp
  from minimal_diff_mutation [OF e n f, of "'' new ''"] show ?thesis
    by (simp add: link_text_def v)
qed

section \<open>Operations on a document\<close>

text \<open>
  The bodies of the methods that change a node, statement by statement. A statement
  assigns a field of the node (\<open>self._core = ...\<close>), calls \<open>self.MarkDirty()\<close>, appends a
  child (\<open>child._parent = self; self._children.append(child)\<close>) or raises. A body runs
  on the node in place: what a statement has written stays written when a later
  statement raises, and the statements after a \<open>raise\<close> are not run.
\<close>

datatype field = F_core | F_label_core | F_href_core | F_title_core | F_code_body_current | F_info

datatype stmt =
    Assign field string
  | Call_MarkDirty
  | Append_child node
  | Raise error

fun put_field :: "field \<Rightarrow> string \<Rightarrow> fields \<Rightarrow> fields" where
  "put_field F_core v (TextFields f) = TextFields (f\<lparr>t_core := v\<rparr>)"
| "put_field F_label_core v (LinkFields f) = LinkFields (f\<lparr>label_core := v\<rparr>)"
| "put_field F_href_core v (LinkFields f) = LinkFields (f\<lparr>href_core := v\<rparr>)"
| "put_field F_title_core v (HeadingFields f) = HeadingFields (f\<lparr>title_core := v\<rparr>)"
| "put_field F_code_body_current v (CodeFields f) = CodeFields (f\<lparr>code_body_current := v\<rparr>)"
| "put_field F_info v (CodeFields f) = CodeFields (f\<lparr>info := v\<rparr>)"
| "put_field _ v f = f"

fun exec_stmt :: "stmt \<Rightarrow> node \<Rightarrow> error option \<times> node" where
  "exec_stmt (Assign fld v) n = (None, Node (Type n) (dirty_self n) (put_field fld v (flds n)) (children n))"
| "exec_stmt Call_MarkDirty n = (None, MarkDirty n)"
| "exec_stmt (Append_child c) n = (None, AppendChildParsed c n)"
| "exec_stmt (Raise e) n = (Some e, n)"

fun exec_body :: "stmt list \<Rightarrow> node \<Rightarrow> error option \<times> node" where
  "exec_body [] n = (None, n)"
| "exec_body (s # ss) n =
     (case exec_stmt s n of
        (Some e, n') \<Rightarrow> (Some e, n')
      | (None, n') \<Rightarrow> exec_body ss n')"

text \<open>
  The body of the Text setter of the class of a node, for the value assigned; None for
  \<open>ParagraphNode\<close>, whose property \<open>Text\<close> has a getter only. The message of the base
  setter is computed from \<open>self.Type.value\<close>.
\<close>

definition Text_setter :: "string \<Rightarrow> node \<Rightarrow> stmt list option" where
  "Text_setter v n =
     (case flds n of
        BaseNode \<Rightarrow>
          Some [Raise (AttributeError (type_value (Type n) @ '' does not support Text assignment''))]
      | TextFields _ \<Rightarrow> Some [Assign F_core (strip v), Call_MarkDirty]
      | LinkFields _ \<Rightarrow> Some [Assign F_label_core (strip v), Call_MarkDirty]
      | CodeFields _ \<Rightarrow> Some [Assign F_code_body_current v, Call_MarkDirty]
      | HeadingFields _ \<Rightarrow> Some [Assign F_title_core (strip v), Call_MarkDirty]
      | ParagraphFields _ \<Rightarrow> None
      | DocumentFields _ \<Rightarrow>
          Some [Raise (AttributeError (type_value (Type n) @ '' does not support Text assignment''))])"

text \<open>
  \<open>node.Text = v\<close>: the interpreter raises at once when the property has no setter, and
  runs the setter on the node otherwise.
\<close>

definition Text_assign :: "string \<Rightarrow> node \<Rightarrow> error option \<times> node" where
  "Text_assign v n =
     (case Text_setter v n of
        None \<Rightarrow> (Some (ReadOnlyProperty ''ParagraphNode'' ''Text''), n)
      | Some body \<Rightarrow> exec_body body n)"

text \<open>
  The bodies of the setters of \<open>Href\<close> and \<open>InfoString\<close>; on a node of another class the
  assignment runs no code of the source. The bodies of \<open>MarkDirty\<close> and \<open>AddChild\<close>.
\<close>

definition Href_setter :: "string \<Rightarrow> node \<Rightarrow> stmt list" where
  "Href_setter v n =
     (case flds n of LinkFields _ \<Rightarrow> [Assign F_href_core (strip v), Call_MarkDirty] | _ \<Rightarrow> [])"

definition InfoString_setter :: "string \<Rightarrow> node \<Rightarrow> stmt list" where
  "InfoString_setter v n =
     (case flds n of
        CodeFields _ \<Rightarrow>
          [Assign F_info (if strip v \<noteq> [] then '' '' @ strip v else []), Call_MarkDirty]
      | _ \<Rightarrow> [])"

definition MarkDirty_body :: "stmt list" where
  "MarkDirty_body = [Call_MarkDirty]"

definition AddChild_body :: "node \<Rightarrow> stmt list" where
  "AddChild_body child = [Append_child child, Call_MarkDirty]"

text \<open>
  A method run on the node a path leads to, in the document: the node is an object of
  the tree, so what the method leaves of it is what the document holds afterwards,
  whether the method has raised or not. Following a path that is not in the tree raises
  \<open>IndexError\<close> before the method is reached.
\<close>

fun exec_at :: "path \<Rightarrow> (node \<Rightarrow> error option \<times> node) \<Rightarrow> node \<Rightarrow> error option \<times> node" where
  "exec_at [] m n = m n"
| "exec_at (k # p) m n =
     (if k < length (children n)
      then (case exec_at p m (children n ! k) of
              (r, c) \<Rightarrow> (r, Node (Type n) (dirty_self n) (flds n) ((children n)[k := c])))
      else (Some IndexError, n))"

text \<open>
  The public operations that change a document, each on the node a path leads to: the
  Text, Href and InfoString setters, \<open>MarkDirty\<close>, \<open>AddChild\<close> (of a tree of its own, not
  a node of the document) and \<open>Parse\<close> on the document itself. \<open>exec_op\<close> gives what is
  raised, if anything, and the document afterwards. \<open>Parse\<close> starts by clearing the
  children and the leading trivia, so an error raised inside it would find the document
  cleared at the least; on a document \<open>Parse\<close> raises nothing (\<open>Parse_ok\<close>), and a node
  of another class has no method \<open>Parse\<close>.
\<close>

datatype op =
    SetText path string
  | SetHref path string
  | SetInfoString path string
  | MarkDirtyAt path
  | AddChildAt path node
  | ParseText string

fun exec_op :: "op \<Rightarrow> node \<Rightarrow> error option \<times> node" where
  "exec_op (SetText p v) doc = exec_at p (Text_assign v) doc"
| "exec_op (SetHref p v) doc = exec_at p (\<lambda>n. exec_body (Href_setter v n) n) doc"
| "exec_op (SetInfoString p v) doc = exec_at p (\<lambda>n. exec_body (InfoString_setter v n) n) doc"
| "exec_op (MarkDirtyAt p) doc = exec_at p (exec_body MarkDirty_body) doc"
| "exec_op (AddChildAt p c) doc = exec_at p (exec_body (AddChild_body c)) doc"
| "exec_op (ParseText s) doc =
     (case flds doc of
        DocumentFields f \<Rightarrow>
          (case Parse s doc of
             Inr d \<Rightarrow> (None, d)
           | Inl e \<Rightarrow>
               (Some e, Node (Type doc) (dirty_self doc)
                          (DocumentFields (f\<lparr>leading_trivia := []\<rparr>)) []))
      | _ \<Rightarrow> (Some (AttributeError ''object has no attribute Parse''), doc))"

definition apply_op :: "op \<Rightarrow> node \<Rightarrow> node" where
  "apply_op ope doc = snd (exec_op ope doc)"

fun apply_ops :: "op list \<Rightarrow> node \<Rightarrow> node" where
  "apply_ops [] doc = doc"
| "apply_ops (ope # ops) doc = apply_ops ops (apply_op ope doc)"

fun is_parse :: "op \<Rightarrow> bool" where
  "is_parse (ParseText s) = True"
| "is_parse _ = False"

text \<open>
  What a statement has written before a \<open>raise\<close> is kept: a body that marked the node
  dirty and then raised would leave it dirty, in the document too.
\<close>

lemma exec_body_keeps_writes:
  "exec_body (Call_MarkDirty # Raise e # rest) n = (Some e, MarkDirty n)"
  "exec_at [0] (exec_body [Call_MarkDirty, Raise e])
     (Node Root False (DocumentFields \<lparr>leading_trivia = [], source_path = None\<rparr>)
        [MarkdownNode Raw]) =
   (Some e, Node Root False (DocumentFields \<lparr>leading_trivia = [], source_path = None\<rparr>)
        [Node Raw True BaseNode []])"
  by (simp_all add: MarkdownNode_def MarkDirty_def)

text \<open>
  The setters as functions from a node to the node afterwards, or to what is raised, are
  what their bodies compute; when a body raises, it is with the node as it was.
\<close>

lemma Text_assign_set_Text:
  "Text_assign v n = (case set_Text v n of Inl e \<Rightarrow> (Some e, n) | Inr n' \<Rightarrow> (None, n'))"
  unfolding Text_assign_def Text_setter_def set_Text_def
  by (cases "flds n") (simp_all add: MarkDirty_def)

lemma Href_setter_set_Href: "exec_body (Href_setter v n) n = (None, set_Href v n)"
  unfolding Href_setter_def set_Href_def
  by (cases "flds n") (simp_all add: MarkDirty_def)

lemma InfoString_setter_set_InfoString:
  "exec_body (InfoString_setter v n) n = (None, set_InfoString v n)"
  unfolding InfoString_setter_def set_InfoString_def
  by (cases "flds n") (simp_all add: MarkDirty_def)

lemma MarkDirty_body_MarkDirty: "exec_body MarkDirty_body n = (None, MarkDirty n)"
  by (simp add: MarkDirty_body_def)

lemma AddChild_body_AddChild: "exec_body (AddChild_body c) n = (None, AddChild c n)"
  by (simp add: AddChild_body_def AddChild_def)

lemma exec_at_modify:
  assumes "\<And>n. m n = (case g n of Inl e \<Rightarrow> (Some e, n) | Inr n' \<Rightarrow> (None, n'))"
  shows "exec_at p m doc =
           (case modify_at p g doc of Inl e \<Rightarrow> (Some e, doc) | Inr d \<Rightarrow> (None, d))"
proof (induction p arbitrary: doc)
  case Nil
  show ?case using assms [of doc] by simp
next
  case (Cons k p)
  show ?case
  proof (cases "k < length (children doc)")
    case False
    then show ?thesis by simp
  next
    case True
    show ?thesis
    proof (cases "modify_at p g (children doc ! k)")
      case (Inl e)
      with Cons.IH [of "children doc ! k"] have "exec_at p m (children doc ! k) = (Some e, children doc ! k)"
        by simp
      with True Inl show ?thesis by simp
    next
      case (Inr c)
      with Cons.IH [of "children doc ! k"] have "exec_at p m (children doc ! k) = (None, c)"
        by simp
      with True Inr show ?thesis by simp
    qed
  qed
qed

text \<open>
  \<open>run_op\<close>: the document after an operation other than \<open>Parse\<close>, or what it raises.
\<close>

fun run_op :: "op \<Rightarrow> node \<Rightarrow> error + node" where
  "run_op (SetText p v) doc = assign_Text p v doc"
| "run_op (SetHref p v) doc = assign_Href p v doc"
| "run_op (SetInfoString p v) doc = modify_at p (\<lambda>n. Inr (set_InfoString v n)) doc"
| "run_op (MarkDirtyAt p) doc = modify_at p (\<lambda>n. Inr (MarkDirty n)) doc"
| "run_op (AddChildAt p c) doc = modify_at p (\<lambda>n. Inr (AddChild c n)) doc"
| "run_op (ParseText s) doc = Parse s doc"

lemma exec_op_run:
  assumes np: "\<not> is_parse ope"
  shows "exec_op ope doc = (case run_op ope doc of Inl e \<Rightarrow> (Some e, doc) | Inr d \<Rightarrow> (None, d))"
proof (cases ope)
  case (SetText p v)
  show ?thesis unfolding SetText
    using exec_at_modify [of "Text_assign v" "set_Text v" p doc] Text_assign_set_Text
    by (simp add: assign_Text_def)
next
  case (SetHref p v)
  show ?thesis unfolding SetHref
    using exec_at_modify [of "\<lambda>n. exec_body (Href_setter v n) n" "\<lambda>n. Inr (set_Href v n)" p doc]
    by (simp add: assign_Href_def Href_setter_set_Href)
next
  case (SetInfoString p v)
  show ?thesis unfolding SetInfoString
    using exec_at_modify [of "\<lambda>n. exec_body (InfoString_setter v n) n"
        "\<lambda>n. Inr (set_InfoString v n)" p doc]
    by (simp add: InfoString_setter_set_InfoString)
next
  case (MarkDirtyAt p)
  show ?thesis unfolding MarkDirtyAt
    using exec_at_modify [of "exec_body MarkDirty_body" "\<lambda>n. Inr (MarkDirty n)" p doc]
    by (simp add: MarkDirty_body_MarkDirty)
next
  case (AddChildAt p c)
  show ?thesis unfolding AddChildAt
    using exec_at_modify [of "exec_body (AddChild_body c)" "\<lambda>n. Inr (AddChild c n)" p doc]
    by (simp add: AddChild_body_AddChild)
next
  case (ParseText s)
  with np show ?thesis by simp
qed

text \<open>\<open>keeps x y\<close>: the step from \<open>x\<close> to \<open>y\<close> clears no dirty state and removes no child.\<close>

definition keeps :: "node \<Rightarrow> node \<Rightarrow> bool" where
  "keeps x y = ((dirty_self x \<longrightarrow> dirty_self y) \<and> (IsDirty x \<longrightarrow> IsDirty y) \<and>
                (\<exists>more. children y = children x @ more))"

lemma IsDirty_alt: "IsDirty n = (dirty_self n \<or> list_ex IsDirty (children n))"
  by (cases n) auto

lemma modify_at_keeps:
  assumes f: "\<And>x y. f x = Inr y \<Longrightarrow> keeps x y"
  shows "modify_at p f doc = Inr doc' \<Longrightarrow> node_at q doc = Inr n \<Longrightarrow>
         \<exists>n'. node_at q doc' = Inr n' \<and> (IsDirty n \<longrightarrow> IsDirty n') \<and> (dirty_self n \<longrightarrow> dirty_self n')"
proof (induction p arbitrary: doc doc' q n)
  case Nil
  then have k: "keeps doc doc'" using f by simp
  show ?case
  proof (cases q)
    case Nil
    with Nil.prems k show ?thesis by (simp add: keeps_def)
  next
    case (Cons j q')
    with Nil.prems have j: "j < length (children doc)" "node_at q' (children doc ! j) = Inr n"
      by (auto split: if_splits)
    from k obtain more where "children doc' = children doc @ more" unfolding keeps_def by blast
    with j Cons show ?thesis by (simp add: nth_append)
  qed
next
  case (Cons j p')
  from Cons.prems(1) obtain c' where
    j: "j < length (children doc)" and m: "modify_at p' f (children doc ! j) = Inr c'"
    and d': "doc' = Node (Type doc) (dirty_self doc) (flds doc) ((children doc)[j := c'])"
    by (auto split: if_splits sum.splits)
  from Cons.IH [OF m, of "[]"] have cd: "IsDirty (children doc ! j) \<longrightarrow> IsDirty c'" by simp
  show ?case
  proof (cases q)
    case Nil
    with Cons.prems(2) have n: "n = doc" by simp
    have "IsDirty doc \<longrightarrow> IsDirty doc'"
    proof
      assume "IsDirty doc"
      then consider "dirty_self doc" | k where "k < length (children doc)" "IsDirty (children doc ! k)"
        by (auto simp: IsDirty_alt [of doc] list_ex_iff in_set_conv_nth)
      then show "IsDirty doc'"
      proof cases
        case 1
        then show ?thesis using d' by simp
      next
        case 2
        have "IsDirty ((children doc)[j := c'] ! k)"
          using 2 cd j by (cases "k = j") auto
        then have "list_ex IsDirty ((children doc)[j := c'])"
          using 2(1) by (auto simp: list_ex_iff in_set_conv_nth intro!: exI [of _ k])
        then show ?thesis using d' by simp
      qed
    qed
    with n Nil d' show ?thesis by simp
  next
    case (Cons k q')
    with Cons.prems(2) have k: "k < length (children doc)" "node_at q' (children doc ! k) = Inr n"
      by (auto split: if_splits)
    show ?thesis
    proof (cases "k = j")
      case True
      with Cons.IH [OF m, of q' n] k d' j Cons show ?thesis by simp
    next
      case False
      with k d' Cons show ?thesis by simp
    qed
  qed
qed

lemma keeps_MarkDirty: "keeps x (MarkDirty (Node (Type x) (dirty_self x) f (children x)))"
  by (simp add: keeps_def MarkDirty_def)

lemma keeps_set_Text: "set_Text v x = Inr y \<Longrightarrow> keeps x y"
  unfolding set_Text_def by (auto split: fields.splits simp: keeps_MarkDirty)

lemma keeps_set_Href: "keeps x (set_Href v x)"
  unfolding set_Href_def by (auto split: fields.splits simp: keeps_MarkDirty) (simp add: keeps_def)+

lemma keeps_set_InfoString: "keeps x (set_InfoString v x)"
  unfolding set_InfoString_def by (auto split: fields.splits simp: keeps_MarkDirty) (simp add: keeps_def)+

lemma keeps_MarkDirty': "keeps x (MarkDirty x)"
  by (simp add: keeps_def MarkDirty_def)

lemma keeps_AddChild: "keeps x (AddChild c x)"
  by (simp add: keeps_def MarkDirty_def AddChild_def AppendChildParsed_def)

lemma apply_op_keeps:
  assumes "\<not> is_parse ope" "node_at q doc = Inr n"
  shows "\<exists>n'. node_at q (apply_op ope doc) = Inr n' \<and> (IsDirty n \<longrightarrow> IsDirty n') \<and>
           (dirty_self n \<longrightarrow> dirty_self n')"
proof (cases "run_op ope doc")
  case (Inl e)
  with assms(2) show ?thesis by (simp add: apply_op_def exec_op_run [OF assms(1)])
next
  case (Inr d)
  have "\<exists>n'. node_at q d = Inr n' \<and> (IsDirty n \<longrightarrow> IsDirty n') \<and> (dirty_self n \<longrightarrow> dirty_self n')"
  proof (cases ope)
    case (SetText p v)
    with Inr show ?thesis
      using modify_at_keeps [of "set_Text v" p doc d q n] keeps_set_Text assms(2)
      by (simp add: assign_Text_def)
  next
    case (SetHref p v)
    with Inr show ?thesis
      using modify_at_keeps [of "\<lambda>n. Inr (set_Href v n)" p doc d q n] keeps_set_Href assms(2)
      by (auto simp: assign_Href_def)
  next
    case (SetInfoString p v)
    with Inr show ?thesis
      using modify_at_keeps [of "\<lambda>n. Inr (set_InfoString v n)" p doc d q n] keeps_set_InfoString assms(2)
      by auto
  next
    case (MarkDirtyAt p)
    with Inr show ?thesis
      using modify_at_keeps [of "\<lambda>n. Inr (MarkDirty n)" p doc d q n] keeps_MarkDirty' assms(2)
      by auto
  next
    case (AddChildAt p c)
    with Inr show ?thesis
      using modify_at_keeps [of "\<lambda>n. Inr (AddChild c n)" p doc d q n] keeps_AddChild assms(2)
      by auto
  next
    case (ParseText s)
    with assms(1) show ?thesis by simp
  qed
  with Inr show ?thesis by (simp add: apply_op_def exec_op_run [OF assms(1)])
qed

lemma apply_ops_keeps:
  "list_all (\<lambda>ope. \<not> is_parse ope) ops \<Longrightarrow> node_at q doc = Inr n \<Longrightarrow>
   \<exists>n'. node_at q (apply_ops ops doc) = Inr n' \<and> (IsDirty n \<longrightarrow> IsDirty n') \<and>
        (dirty_self n \<longrightarrow> dirty_self n')"
proof (induction ops arbitrary: doc n)
  case Nil
  then show ?case by simp
next
  case (Cons ope ops)
  from Cons.prems have np: "\<not> is_parse ope" "list_all (\<lambda>ope. \<not> is_parse ope) ops" by auto
  from apply_op_keeps [OF np(1) Cons.prems(2)] obtain n1 where
    n1: "node_at q (apply_op ope doc) = Inr n1" "IsDirty n \<longrightarrow> IsDirty n1" "dirty_self n \<longrightarrow> dirty_self n1"
    by blast
  from Cons.IH [OF np(2) n1(1)] n1(2,3) show ?case by auto
qed

lemma Parse_keeps_flag: "dirty_self (apply_op (ParseText s) doc) = dirty_self doc"
proof (cases "flds doc")
  case (DocumentFields f)
  from Parse_ok [OF this, of s] show ?thesis
    using DocumentFields by (auto simp: apply_op_def)
qed (simp_all add: apply_op_def)

lemma apply_ops_flag: "dirty_self doc \<Longrightarrow> dirty_self (apply_ops ops doc)"
proof (induction ops arbitrary: doc)
  case Nil
  then show ?case by simp
next
  case (Cons ope ops)
  have "dirty_self (apply_op ope doc)"
  proof (cases "is_parse ope")
    case True
    then obtain s where "ope = ParseText s" by (cases ope) auto
    with Cons.prems Parse_keeps_flag [of s doc] show ?thesis by simp
  next
    case False
    from apply_op_keeps [OF False, of "[]" doc doc] Cons.prems show ?thesis by simp
  qed
  from Cons.IH [OF this] show ?case by simp
qed

lemma modify_at_fails: "node_at p doc = Inr n \<Longrightarrow> f n = Inl e \<Longrightarrow> modify_at p f doc = Inl e"
  by (induction p arbitrary: doc) (auto split: if_splits)

section \<open>Dirty markers\<close>

text \<open>
  C8, as the code has it. Under every sequence of the operations other than \<open>Parse\<close>
  (the setters, \<open>MarkDirty\<close>, \<open>AddChild\<close>) a node of the document that is dirty, by its own
  flag or through a descendant, stays a node of the document and stays dirty. A node's
  own flag is never cleared: \<open>Parse\<close> keeps the flag of the document, and a document
  whose own flag is set stays dirty under every sequence of operations, \<open>Parse\<close>
  included. \<open>Parse\<close> replaces the children, so dirtiness that came from a descendant
  only is not kept by it.
\<close>

theorem dirty_monotone:
  "(list_all (\<lambda>ope. \<not> is_parse ope) ops \<and> node_at q doc = Inr n \<and> IsDirty n \<longrightarrow>
      (\<exists>n'. node_at q (apply_ops ops doc) = Inr n' \<and> IsDirty n' \<and>
            (dirty_self n \<longrightarrow> dirty_self n'))) \<and>
   dirty_self (apply_op (ParseText s) doc) = dirty_self doc \<and>
   (dirty_self doc \<longrightarrow> dirty_self (apply_ops ops' doc) \<and> IsDirty (apply_ops ops' doc))"
proof (intro conjI impI)
  assume a: "list_all (\<lambda>ope. \<not> is_parse ope) ops \<and> node_at q doc = Inr n \<and> IsDirty n"
  with apply_ops_keeps [of ops q doc n]
  show "\<exists>n'. node_at q (apply_ops ops doc) = Inr n' \<and> IsDirty n' \<and> (dirty_self n \<longrightarrow> dirty_self n')"
    by auto
next
  show "dirty_self (apply_op (ParseText s) doc) = dirty_self doc" by (rule Parse_keeps_flag)
next
  assume "dirty_self doc"
  from apply_ops_flag [OF this] show "dirty_self (apply_ops ops' doc)" .
  then show "IsDirty (apply_ops ops' doc)" by (simp add: IsDirty_alt)
qed

theorem dirty_monotone_witness:
  "(\<exists>n'. node_at [0]
          (apply_ops [AddChildAt [] (TextNode ''t''), SetText [0] ''zz'']
             (Node Root False (DocumentFields \<lparr>leading_trivia = [], source_path = None\<rparr>)
                [Node Paragraph False
                   (ParagraphFields \<lparr>p_raw_original = ''[a](b)'', p_block_suffix = []\<rparr>)
                   [MarkDirty (LinkNode ''[a](b)'' ''a'' ''b'' False)]])) = Inr n' \<and>
        IsDirty n') \<and>
   IsDirty (apply_ops [ParseText ''x'', SetHref [0] ''y'']
     (Node Root True (DocumentFields \<lparr>leading_trivia = [], source_path = None\<rparr>) []))"
proof
  let ?p = "Node Paragraph False
              (ParagraphFields \<lparr>p_raw_original = ''[a](b)'', p_block_suffix = []\<rparr>)
              [MarkDirty (LinkNode ''[a](b)'' ''a'' ''b'' False)]"
  let ?d = "Node Root False (DocumentFields \<lparr>leading_trivia = [], source_path = None\<rparr>) [?p]"
  have h: "list_all (\<lambda>ope. \<not> is_parse ope) [AddChildAt [] (TextNode ''t''), SetText [0] ''zz''] \<and>
           node_at [0] ?d = Inr ?p \<and> IsDirty ?p"
    by (simp add: MarkDirty_def)
  from dirty_monotone [of "[AddChildAt [] (TextNode ''t''), SetText [0] ''zz'']" "[0]" ?d ?p] h
  show "\<exists>n'. node_at [0] (apply_ops [AddChildAt [] (TextNode ''t''), SetText [0] ''zz''] ?d) = Inr n' \<and>
        IsDirty n'" by blast
next
  let ?e = "Node Root True (DocumentFields \<lparr>leading_trivia = [], source_path = None\<rparr>) []"
  have "dirty_self ?e" by simp
  with dirty_monotone [of _ _ ?e _ _ "[ParseText ''x'', SetHref [0] ''y'']"]
  show "IsDirty (apply_ops [ParseText ''x'', SetHref [0] ''y''] ?e)" by blast
qed

text \<open>
  The claim as it is stated fails: after a link target is assigned the document built
  from \<open>[a](b)\<close> is dirty, and after \<open>Parse\<close> is called again it is not.
\<close>

theorem dirty_cleared_by_parse:
  "MarkdownDocument ''[a](b)'' None =
     Inr (Node Root False (DocumentFields \<lparr>leading_trivia = [], source_path = None\<rparr>)
            [Node Paragraph False
               (ParagraphFields \<lparr>p_raw_original = ''[a](b)'', p_block_suffix = []\<rparr>)
               [LinkNode ''[a](b)'' ''a'' ''b'' False]]) \<and>
   IsDirty (apply_ops [SetHref [0, 0] ''c'']
     (Node Root False (DocumentFields \<lparr>leading_trivia = [], source_path = None\<rparr>)
            [Node Paragraph False
               (ParagraphFields \<lparr>p_raw_original = ''[a](b)'', p_block_suffix = []\<rparr>)
               [LinkNode ''[a](b)'' ''a'' ''b'' False]])) \<and>
   \<not> IsDirty (apply_ops [SetHref [0, 0] ''c'', ParseText ''x'']
     (Node Root False (DocumentFields \<lparr>leading_trivia = [], source_path = None\<rparr>)
            [Node Paragraph False
               (ParagraphFields \<lparr>p_raw_original = ''[a](b)'', p_block_suffix = []\<rparr>)
               [LinkNode ''[a](b)'' ''a'' ''b'' False]]))"
  by code_simp

section \<open>Text assignment on a kind without a setter\<close>

text \<open>
  C7, as the code has it. Assigning Text never succeeds on a node whose class has no
  Text setter, and it succeeds on every other node. On a plain node and on the document
  the base setter raises the \<open>AttributeError\<close> whose message names the kind:
  \<open><Type.value> does not support Text assignment\<close>. On a ParagraphNode, whose \<open>Text\<close>
  is declared with a getter only, the assignment is refused by the interpreter with its
  own \<open>AttributeError\<close> for a property without a setter, not with the message of the
  source.
\<close>

theorem text_capability_error:
  "(flds n = BaseNode \<or> (\<exists>f. flds n = DocumentFields f) \<longrightarrow>
      set_Text v n =
        Inl (AttributeError (type_value (Type n) @ '' does not support Text assignment''))) \<and>
   ((\<exists>f. flds n = ParagraphFields f) \<longrightarrow>
      set_Text v n = Inl (ReadOnlyProperty ''ParagraphNode'' ''Text'')) \<and>
   ((\<exists>n'. set_Text v n = Inr n') =
      (case flds n of TextFields _ \<Rightarrow> True | LinkFields _ \<Rightarrow> True | CodeFields _ \<Rightarrow> True
       | HeadingFields _ \<Rightarrow> True | _ \<Rightarrow> False)) \<and>
   (MarkdownDocument s sp = Inr n \<longrightarrow>
      set_Text v n = Inl (AttributeError ''Root does not support Text assignment''))"
proof (intro conjI impI)
  assume "MarkdownDocument s sp = Inr n"
  moreover have "\<exists>d lead. Parse s (Node Root False (DocumentFields \<lparr>leading_trivia = [], source_path = sp\<rparr>) []) = Inr d \<and>
      Type d = Root \<and> flds d = DocumentFields (\<lparr>leading_trivia = [], source_path = sp\<rparr>\<lparr>leading_trivia := lead\<rparr>)"
    using Parse_ok [of "Node Root False (DocumentFields \<lparr>leading_trivia = [], source_path = sp\<rparr>) []" _ s]
    by auto
  ultimately have "Type n = Root \<and> (\<exists>f. flds n = DocumentFields f)"
    by (cases "s = []") (auto simp: MarkdownDocument_def Let_def)
  then show "set_Text v n = Inl (AttributeError ''Root does not support Text assignment'')"
    by (auto simp: set_Text_def)
qed (auto simp: set_Text_def split: fields.splits)

theorem text_capability_error_witness:
  "set_Text ''x'' (MarkdownNode BlockQuote) =
     Inl (AttributeError ''BlockQuote does not support Text assignment'') \<and>
   set_Text ''x''
     (Node Paragraph False (ParagraphFields \<lparr>p_raw_original = ''a'', p_block_suffix = []\<rparr>)
        [TextNode ''a'']) = Inl (ReadOnlyProperty ''ParagraphNode'' ''Text'') \<and>
   MarkdownDocument ''a'' None =
     Inr (Node Root False (DocumentFields \<lparr>leading_trivia = [], source_path = None\<rparr>)
            [Node Paragraph False (ParagraphFields \<lparr>p_raw_original = ''a'', p_block_suffix = []\<rparr>)
               [TextNode ''a'']]) \<and>
   set_Text ''x''
     (Node Root False (DocumentFields \<lparr>leading_trivia = [], source_path = None\<rparr>)
            [Node Paragraph False (ParagraphFields \<lparr>p_raw_original = ''a'', p_block_suffix = []\<rparr>)
               [TextNode ''a'']]) =
     Inl (AttributeError ''Root does not support Text assignment'')"
proof (intro conjI)
  have "flds (MarkdownNode BlockQuote) = BaseNode \<or>
        (\<exists>f. flds (MarkdownNode BlockQuote) = DocumentFields f)"
    by (simp add: MarkdownNode_def)
  with text_capability_error [of "MarkdownNode BlockQuote" "''x''"]
  show "set_Text ''x'' (MarkdownNode BlockQuote) =
     Inl (AttributeError ''BlockQuote does not support Text assignment'')"
    by (simp add: MarkdownNode_def)
next
  let ?p = "Node Paragraph False (ParagraphFields \<lparr>p_raw_original = ''a'', p_block_suffix = []\<rparr>)
              [TextNode ''a'']"
  have "\<exists>f. flds ?p = ParagraphFields f" by simp
  with text_capability_error [of ?p "''x''"]
  show "set_Text ''x'' ?p = Inl (ReadOnlyProperty ''ParagraphNode'' ''Text'')" by blast
next
  let ?p = "Node Paragraph False (ParagraphFields \<lparr>p_raw_original = ''a'', p_block_suffix = []\<rparr>)
              [TextNode ''a'']"
  let ?d = "Node Root False (DocumentFields \<lparr>leading_trivia = [], source_path = None\<rparr>) [?p]"
  show e: "MarkdownDocument ''a'' None = Inr ?d" by code_simp
  with text_capability_error [of ?d "''x''" "''a''" None]
  show "set_Text ''x'' ?d = Inl (AttributeError ''Root does not support Text assignment'')" by blast
qed

text \<open>
  The claim as it is stated fails on a ParagraphNode: the error is not the capability
  error of the source that names the kind.
\<close>

theorem paragraph_text_error:
  "ParagraphNode ''a'' [] =
     Inr (Node Paragraph False (ParagraphFields \<lparr>p_raw_original = ''a'', p_block_suffix = []\<rparr>)
            [TextNode ''a'']) \<and>
   set_Text ''x''
     (Node Paragraph False (ParagraphFields \<lparr>p_raw_original = ''a'', p_block_suffix = []\<rparr>)
        [TextNode ''a'']) = Inl (ReadOnlyProperty ''ParagraphNode'' ''Text'') \<and>
   set_Text ''x''
     (Node Paragraph False (ParagraphFields \<lparr>p_raw_original = ''a'', p_block_suffix = []\<rparr>)
        [TextNode ''a'']) \<noteq> Inl (AttributeError ''Paragraph does not support Text assignment'')"
  by code_simp

section \<open>A failed Text assignment changes nothing\<close>

text \<open>
  C10. When a Text assignment fails, the document is exactly as it was before. The
  assignment is run in place, statement by statement (\<open>exec_op\<close>, \<open>exec_body\<close>), and
  whenever it raises, nothing has been written: the base setter raises in its first
  statement, the setters that write do not raise, the assignment to the property of a
  paragraph is refused before any code of the class runs, and a path that is not in the
  tree fails while it is followed. On a plain node, a paragraph and the document the
  assignment does raise, with the error of the class. No node has become dirty, and the
  document serialises as before.
\<close>

theorem failed_assignment_atomic:
  "(fst (exec_op (SetText p v) doc) \<noteq> None \<longrightarrow> snd (exec_op (SetText p v) doc) = doc) \<and>
   (node_at p doc = Inr n \<and>
    (flds n = BaseNode \<or> (\<exists>f. flds n = ParagraphFields f) \<or> (\<exists>f. flds n = DocumentFields f)) \<longrightarrow>
      exec_op (SetText p v) doc =
        (Some (case flds n of
                 ParagraphFields _ \<Rightarrow> ReadOnlyProperty ''ParagraphNode'' ''Text''
               | _ \<Rightarrow> AttributeError (type_value (Type n) @ '' does not support Text assignment'')),
         doc) \<and>
      ToMarkdown (apply_op (SetText p v) doc) = ToMarkdown doc \<and>
      (\<forall>q. map_sum id IsDirty (node_at q (apply_op (SetText p v) doc)) =
            map_sum id IsDirty (node_at q doc)))"
proof (intro conjI impI)
  have e: "exec_op (SetText p v) doc =
             (case modify_at p (set_Text v) doc of Inl e \<Rightarrow> (Some e, doc) | Inr d \<Rightarrow> (None, d))"
    using exec_at_modify [of "Text_assign v" "set_Text v" p doc] Text_assign_set_Text by simp
  show "snd (exec_op (SetText p v) doc) = doc" if "fst (exec_op (SetText p v) doc) \<noteq> None"
    using that unfolding e by (auto split: sum.splits)
  assume a: "node_at p doc = Inr n \<and>
    (flds n = BaseNode \<or> (\<exists>f. flds n = ParagraphFields f) \<or> (\<exists>f. flds n = DocumentFields f))"
  let ?e = "case flds n of
              ParagraphFields _ \<Rightarrow> ReadOnlyProperty ''ParagraphNode'' ''Text''
            | _ \<Rightarrow> AttributeError (type_value (Type n) @ '' does not support Text assignment'')"
  from a have "set_Text v n = Inl ?e" by (auto simp: set_Text_def)
  with a modify_at_fails [of p doc n "set_Text v" ?e]
  have "modify_at p (set_Text v) doc = Inl ?e" by simp
  then show r: "exec_op (SetText p v) doc = (Some ?e, doc)" unfolding e by simp
  from r show "ToMarkdown (apply_op (SetText p v) doc) = ToMarkdown doc"
    by (simp add: apply_op_def)
  from r show "\<forall>q. map_sum id IsDirty (node_at q (apply_op (SetText p v) doc)) =
            map_sum id IsDirty (node_at q doc)"
    by (simp add: apply_op_def)
qed

theorem failed_assignment_atomic_witness:
  "exec_op (SetText [0] ''x'')
     (Node Root False (DocumentFields \<lparr>leading_trivia = [], source_path = None\<rparr>)
        [Node Paragraph False (ParagraphFields \<lparr>p_raw_original = ''a'', p_block_suffix = []\<rparr>)
           [TextNode ''a'']]) =
   (Some (ReadOnlyProperty ''ParagraphNode'' ''Text''),
    Node Root False (DocumentFields \<lparr>leading_trivia = [], source_path = None\<rparr>)
        [Node Paragraph False (ParagraphFields \<lparr>p_raw_original = ''a'', p_block_suffix = []\<rparr>)
           [TextNode ''a'']]) \<and>
   exec_op (SetText [] ''x'')
     (Node Root False (DocumentFields \<lparr>leading_trivia = [], source_path = None\<rparr>)
        [MarkdownNode Raw]) =
   (Some (AttributeError ''Root does not support Text assignment''),
    Node Root False (DocumentFields \<lparr>leading_trivia = [], source_path = None\<rparr>)
        [MarkdownNode Raw]) \<and>
   snd (exec_op (SetText [5] ''x'')
     (Node Root False (DocumentFields \<lparr>leading_trivia = [], source_path = None\<rparr>) [])) =
   Node Root False (DocumentFields \<lparr>leading_trivia = [], source_path = None\<rparr>) []"
proof (intro conjI)
  let ?p = "Node Paragraph False (ParagraphFields \<lparr>p_raw_original = ''a'', p_block_suffix = []\<rparr>)
              [TextNode ''a'']"
  let ?d = "Node Root False (DocumentFields \<lparr>leading_trivia = [], source_path = None\<rparr>) [?p]"
  have h: "node_at [0] ?d = Inr ?p \<and>
           (flds ?p = BaseNode \<or> (\<exists>f. flds ?p = ParagraphFields f) \<or> (\<exists>f. flds ?p = DocumentFields f))"
    by simp
  from failed_assignment_atomic [where p = "[0]" and v = "''x''" and doc = ?d and n = ?p] h
  have "exec_op (SetText [0] ''x'') ?d =
        (Some (case flds ?p of
                 ParagraphFields _ \<Rightarrow> ReadOnlyProperty ''ParagraphNode'' ''Text''
               | _ \<Rightarrow> AttributeError (type_value (Type ?p) @ '' does not support Text assignment'')),
         ?d)" by blast
  then show "exec_op (SetText [0] ''x'') ?d = (Some (ReadOnlyProperty ''ParagraphNode'' ''Text''), ?d)"
    by simp
next
  let ?d = "Node Root False (DocumentFields \<lparr>leading_trivia = [], source_path = None\<rparr>)
              [MarkdownNode Raw]"
  have h: "node_at [] ?d = Inr ?d \<and>
           (flds ?d = BaseNode \<or> (\<exists>f. flds ?d = ParagraphFields f) \<or> (\<exists>f. flds ?d = DocumentFields f))"
    by simp
  from failed_assignment_atomic [where p = "[]" and v = "''x''" and doc = ?d and n = ?d] h
  have "exec_op (SetText [] ''x'') ?d =
        (Some (case flds ?d of
                 ParagraphFields _ \<Rightarrow> ReadOnlyProperty ''ParagraphNode'' ''Text''
               | _ \<Rightarrow> AttributeError (type_value (Type ?d) @ '' does not support Text assignment'')),
         ?d)" by blast
  then show "exec_op (SetText [] ''x'') ?d =
     (Some (AttributeError ''Root does not support Text assignment''), ?d)"
    by simp
next
  let ?e = "Node Root False (DocumentFields \<lparr>leading_trivia = [], source_path = None\<rparr>) []"
  have "fst (exec_op (SetText [5] ''x'') ?e) \<noteq> None" by simp
  with failed_assignment_atomic [where p = "[5]" and v = "''x''" and doc = ?e]
  show "snd (exec_op (SetText [5] ''x'') ?e) = ?e" by blast
qed

end
